theory Spec2Isabelle
  imports Main "HOL-Library.Finite_Map" "HOL-Library.Multiset"
begin

section \<open>The rocket repository of \<open>internal/storage\<close> and its message model\<close>

text \<open>
  The Go package \<open>storage\<close> keeps three maps, all keyed by the channel (the rocket id):
  the rocket states, the numbers already processed and the buffered out-of-order
  messages. \<open>ProcessMessage\<close> mutates them under one lock, so a call is a function from
  the repository to the returned flag and the new repository.

  Go's \<open>int\<close> is taken at 64 bits: a value is an \<open>int\<close> between \<open>- 2 ^ 63\<close> and
  \<open>2 ^ 63 - 1\<close>, and every addition and subtraction of the source is followed by
  \<open>wrap64\<close>. A \<open>time.Time\<close> is a number, \<open>0\<close> being the zero time of \<open>IsZero\<close>.
  A Go map is a finite map; a missing inner map (\<open>nil\<close>) is a missing key of the outer one.
\<close>

subsection \<open>models: messages and rocket state\<close>

type_synonym timestamp = nat

definition IsZero :: "timestamp \<Rightarrow> bool" where
  "IsZero t = (t = 0)"

definition wrap64 :: "int \<Rightarrow> int" where
  "wrap64 x = (x + 2 ^ 63) mod 2 ^ 64 - 2 ^ 63"

definition int64 :: "int \<Rightarrow> bool" where
  "int64 x = (- (2 ^ 63) \<le> x \<and> x < 2 ^ 63)"

text \<open>\<open>RocketMessage\<close>: the four \<open>Metadata\<close> fields, then the fields of \<open>MessageContent\<close>.\<close>

record RocketMessage =
  Channel :: string
  MessageNumber :: int
  MessageTime :: timestamp
  MessageType :: string
  Message_Type :: string
  Message_LaunchSpeed :: int
  Message_Mission :: string
  Message_By :: int
  Message_Reason :: string
  Message_NewMission :: string

definition MessageTypeRocketLaunched :: string where
  "MessageTypeRocketLaunched = ''RocketLaunched''"

definition MessageTypeRocketSpeedIncreased :: string where
  "MessageTypeRocketSpeedIncreased = ''RocketSpeedIncreased''"

definition MessageTypeRocketSpeedDecreased :: string where
  "MessageTypeRocketSpeedDecreased = ''RocketSpeedDecreased''"

definition MessageTypeRocketExploded :: string where
  "MessageTypeRocketExploded = ''RocketExploded''"

definition MessageTypeRocketMissionChanged :: string where
  "MessageTypeRocketMissionChanged = ''RocketMissionChanged''"

record RocketState =
  ID :: string
  Type :: string
  Speed :: int
  Mission :: string
  Exploded :: bool
  Reason :: string
  CreatedAt :: timestamp
  UpdatedAt :: timestamp
  LastProcessedMessageNumber :: int

record RocketSummary =
  Summary_ID :: string
  Summary_Type :: string
  Summary_Speed :: int
  Summary_Mission :: string
  Summary_Exploded :: bool
  Summary_UpdatedAt :: timestamp

subsection \<open>storage: the repository\<close>

record RocketRepository =
  rockets :: "(string, RocketState) fmap"
  processedMessages :: "(string, (int, bool) fmap) fmap"
  pendingMessages :: "(string, (int, RocketMessage) fmap) fmap"

definition NewRocketRepository :: RocketRepository where
  "NewRocketRepository =
     \<lparr>rockets = fmempty, processedMessages = fmempty, pendingMessages = fmempty\<rparr>"

text \<open>Reading through a \<open>nil\<close> inner map gives the zero value, as reading an empty one.\<close>

definition processedFor :: "RocketRepository \<Rightarrow> string \<Rightarrow> (int, bool) fmap" where
  "processedFor r rocketID =
     (case fmlookup (processedMessages r) rocketID of None \<Rightarrow> fmempty | Some p \<Rightarrow> p)"

definition pendingFor :: "RocketRepository \<Rightarrow> string \<Rightarrow> (int, RocketMessage) fmap" where
  "pendingFor r rocketID =
     (case fmlookup (pendingMessages r) rocketID of None \<Rightarrow> fmempty | Some p \<Rightarrow> p)"

text \<open>\<open>r.processedMessages[rocketID][msgNumber]\<close> read as a condition.\<close>

definition isProcessed :: "RocketRepository \<Rightarrow> string \<Rightarrow> int \<Rightarrow> bool" where
  "isProcessed r rocketID msgNumber =
     (fmlookup (processedFor r rocketID) msgNumber = Some True)"

text \<open>\<open>r.processedMessages[rocketID][msgNumber] = true\<close>.\<close>

definition setProcessed :: "RocketRepository \<Rightarrow> string \<Rightarrow> int \<Rightarrow> RocketRepository" where
  "setProcessed r rocketID msgNumber =
     r\<lparr>processedMessages :=
         fmupd rocketID (fmupd msgNumber True (processedFor r rocketID)) (processedMessages r)\<rparr>"

text \<open>\<open>r.pendingMessages[rocketID][msgNumber] = msg\<close>.\<close>

definition setPending ::
  "RocketRepository \<Rightarrow> string \<Rightarrow> int \<Rightarrow> RocketMessage \<Rightarrow> RocketRepository" where
  "setPending r rocketID msgNumber msg =
     r\<lparr>pendingMessages :=
         fmupd rocketID (fmupd msgNumber msg (pendingFor r rocketID)) (pendingMessages r)\<rparr>"

text \<open>\<open>delete(pendingForRocket, n)\<close>; deleting from a \<open>nil\<close> map does nothing.\<close>

definition deletePending :: "RocketRepository \<Rightarrow> string \<Rightarrow> int \<Rightarrow> RocketRepository" where
  "deletePending r rocketID n =
     (case fmlookup (pendingMessages r) rocketID of
        None \<Rightarrow> r
      | Some p \<Rightarrow> r\<lparr>pendingMessages := fmupd rocketID (fmdrop n p) (pendingMessages r)\<rparr>)"

text \<open>
  The loop of the \<open>RocketExploded\<close> case: every pending entry of the rocket that is not a
  launch message is deleted. Deleting while ranging over a Go map is allowed and every
  entry that is still there is visited, so the loop leaves exactly the launch messages.
\<close>

definition clearPendingExceptLaunch :: "RocketRepository \<Rightarrow> string \<Rightarrow> RocketRepository" where
  "clearPendingExceptLaunch r rocketID =
     (case fmlookup (pendingMessages r) rocketID of
        None \<Rightarrow> r
      | Some p \<Rightarrow>
          r\<lparr>pendingMessages :=
              fmupd rocketID
                (fmfilter (\<lambda>msgNum. case fmlookup p msgNum of
                                      None \<Rightarrow> False
                                    | Some pendingMsg \<Rightarrow>
                                        MessageType pendingMsg = MessageTypeRocketLaunched) p)
                (pendingMessages r)\<rparr>)"

text \<open>
  \<open>processMessageByType\<close> mutates the rocket behind the pointer and, when the rocket
  explodes, the pending map of \<open>rocket.ID\<close>. The model returns the flag, the rocket and
  the repository.
\<close>

definition processMessageByType ::
  "RocketRepository \<Rightarrow> RocketState \<Rightarrow> RocketMessage \<Rightarrow> bool \<times> RocketState \<times> RocketRepository"
where
  "processMessageByType r rocket msg =
     (if Exploded rocket \<and> MessageType msg \<noteq> MessageTypeRocketLaunched then (False, rocket, r)
      else if MessageType msg = MessageTypeRocketLaunched then
        (if Message_Type msg = [] \<or> Message_Mission msg = [] then (False, rocket, r)
         else
           (True,
            rocket\<lparr>Type := Message_Type msg, Mission := Message_Mission msg,
                   Speed := Message_LaunchSpeed msg, Exploded := False, Reason := [],
                   CreatedAt := (if IsZero (CreatedAt rocket) then MessageTime msg
                                 else CreatedAt rocket)\<rparr>,
            r))
      else if MessageType msg = MessageTypeRocketSpeedIncreased then
        (if Message_By msg \<le> 0 then (False, rocket, r)
         else (True, rocket\<lparr>Speed := wrap64 (Speed rocket + Message_By msg)\<rparr>, r))
      else if MessageType msg = MessageTypeRocketSpeedDecreased then
        (if Message_By msg \<le> 0 then (False, rocket, r)
         else
           (let speed = wrap64 (Speed rocket - Message_By msg)
            in (True, rocket\<lparr>Speed := (if speed < 0 then 0 else speed)\<rparr>, r)))
      else if MessageType msg = MessageTypeRocketExploded then
        (if Message_Reason msg = [] then (False, rocket, r)
         else
           (True, rocket\<lparr>Exploded := True, Reason := Message_Reason msg\<rparr>,
            clearPendingExceptLaunch r (ID rocket)))
      else if MessageType msg = MessageTypeRocketMissionChanged then
        (if Message_NewMission msg = [] then (False, rocket, r)
         else (True, rocket\<lparr>Mission := Message_NewMission msg\<rparr>, r))
      else (False, rocket, r))"

text \<open>
  No call of \<open>processMessageByType\<close> adds to a pending map, and a delete takes a key
  away: this is what ends the loop of \<open>processPendingMessages\<close> below.
\<close>

lemma fmdom'_pendingFor_deletePending:
  "fmdom' (pendingFor (deletePending r c n) c') =
     (if c = c' then fmdom' (pendingFor r c') - {n} else fmdom' (pendingFor r c'))"
  by (auto simp: pendingFor_def deletePending_def split: option.splits)

lemma pendingFor_setProcessed: "pendingFor (setProcessed r c n) c' = pendingFor r c'"
  by (simp add: pendingFor_def setProcessed_def)

lemma fmdom'_pendingFor_clear:
  "fmdom' (pendingFor (clearPendingExceptLaunch r c) c') \<subseteq> fmdom' (pendingFor r c')"
  by (auto simp: pendingFor_def clearPendingExceptLaunch_def split: option.splits if_splits)

lemma fmdom'_pendingFor_processMessageByType:
  "processMessageByType r rocket msg = (ok, rocket', r') \<Longrightarrow>
     fmdom' (pendingFor r' c) \<subseteq> fmdom' (pendingFor r c)"
  using fmdom'_pendingFor_clear [of r "ID rocket" c]
  by (auto simp: processMessageByType_def Let_def split: if_splits)

lemma pending_shrinks:
  assumes "fmlookup (pendingFor r c) n = Some msg"
    and "processMessageByType r rocket msg = (ok, rocket', r')"
  shows "card (fmdom' (pendingFor r' c) - {n}) < card (fmdom' (pendingFor r c))"
proof -
  have "n \<in> fmdom' (pendingFor r c)"
    using assms(1) by (simp add: fmdom'I)
  moreover have "fmdom' (pendingFor r' c) \<subseteq> fmdom' (pendingFor r c)"
    by (rule fmdom'_pendingFor_processMessageByType [OF assms(2)])
  ultimately have "fmdom' (pendingFor r' c) - {n} \<subset> fmdom' (pendingFor r c)"
    by blast
  then show ?thesis
    by (simp add: psubset_card_mono)
qed

text \<open>
  The loop of \<open>processPendingMessages\<close>, on the rocket behind the pointer and the
  repository. Every turn that does not leave the loop deletes the entry it looked at
  from the pending map of \<open>rocketID\<close>, which is what makes the loop end.
\<close>

function processPendingLoop ::
  "string \<Rightarrow> RocketState \<Rightarrow> RocketRepository \<Rightarrow> RocketState \<times> RocketRepository"
where
  "processPendingLoop rocketID rocket r =
     (let nextMsgNumber = wrap64 (LastProcessedMessageNumber rocket + 1) in
      case fmlookup (pendingFor r rocketID) nextMsgNumber of
        None \<Rightarrow> (rocket, r)
      | Some msg \<Rightarrow>
          if Exploded rocket \<and> MessageType msg \<noteq> MessageTypeRocketLaunched then
            processPendingLoop rocketID rocket (deletePending r rocketID nextMsgNumber)
          else
            (case processMessageByType r rocket msg of
               (True, rocket', r') \<Rightarrow>
                 processPendingLoop rocketID
                   (rocket'\<lparr>LastProcessedMessageNumber := nextMsgNumber,
                            UpdatedAt := MessageTime msg\<rparr>)
                   (deletePending (setProcessed r' rocketID nextMsgNumber) rocketID nextMsgNumber)
             | (False, rocket', r') \<Rightarrow> (rocket', deletePending r' rocketID nextMsgNumber)))"
  by pat_completeness auto

termination
  apply (relation "measure (\<lambda>(rocketID, rocket, r). card (fmdom' (pendingFor r rocketID)))")
  apply simp
  apply (simp add: fmdom'_pendingFor_deletePending)
  apply (intro card_Diff1_less; simp add: fmdom'I)
  apply (simp add: fmdom'_pendingFor_deletePending pendingFor_setProcessed)
  subgoal for rocketID rocket r x x2 xa y xaa ya
    using pending_shrinks [of r rocketID "wrap64 (LastProcessedMessageNumber rocket + 1)" x2 rocket True xaa ya]
    by simp
  done


declare processPendingLoop.simps [simp del]

text \<open>The rocket is a pointer: what the callee did to it is in the map under its key.\<close>

definition storeRocket :: "RocketRepository \<Rightarrow> string \<Rightarrow> RocketState \<Rightarrow> RocketRepository" where
  "storeRocket r rocketID rocket = r\<lparr>rockets := fmupd rocketID rocket (rockets r)\<rparr>"

text \<open>
  \<open>processPendingMessages\<close> is called by \<open>ProcessMessage\<close> alone, after the rocket has
  been stored and both inner maps made; the branch for a missing rocket (a nil pointer
  in Go) is never taken.
\<close>

definition processPendingMessages :: "RocketRepository \<Rightarrow> string \<Rightarrow> RocketRepository" where
  "processPendingMessages r rocketID =
     (case fmlookup (rockets r) rocketID of
        None \<Rightarrow> r
      | Some rocket \<Rightarrow>
          (case processPendingLoop rocketID rocket r of
             (rocket', r') \<Rightarrow> storeRocket r' rocketID rocket'))"

text \<open>The two \<open>make\<close> calls at the head of \<open>ProcessMessage\<close>.\<close>

definition initMaps :: "RocketRepository \<Rightarrow> string \<Rightarrow> RocketRepository" where
  "initMaps r rocketID =
     r\<lparr>processedMessages :=
         (case fmlookup (processedMessages r) rocketID of
            None \<Rightarrow> fmupd rocketID fmempty (processedMessages r)
          | Some p \<Rightarrow> processedMessages r),
       pendingMessages :=
         (case fmlookup (pendingMessages r) rocketID of
            None \<Rightarrow> fmupd rocketID fmempty (pendingMessages r)
          | Some p \<Rightarrow> pendingMessages r)\<rparr>"

text \<open>\<open>&models.RocketState{ID: rocketID, LastProcessedMessageNumber: 0}\<close>.\<close>

definition newRocketState :: "string \<Rightarrow> RocketState" where
  "newRocketState rocketID =
     \<lparr>ID = rocketID, Type = [], Speed = 0, Mission = [], Exploded = False, Reason = [],
      CreatedAt = 0, UpdatedAt = 0, LastProcessedMessageNumber = 0\<rparr>"

text \<open>
  The second half of \<open>ProcessMessage\<close>, from \<open>expectedMsgNumber\<close> on: the rocket has
  been found or made, and the message is applied, buffered or refused.
\<close>

definition processInSequence ::
  "RocketRepository \<Rightarrow> RocketState \<Rightarrow> RocketMessage \<Rightarrow> bool \<times> RocketRepository" where
  "processInSequence r rocket msg =
     (let rocketID = Channel msg;
          msgNumber = MessageNumber msg;
          expectedMsgNumber = wrap64 (LastProcessedMessageNumber rocket + 1)
      in if msgNumber = expectedMsgNumber then
           (case processMessageByType r rocket msg of
              (True, rocket', r') \<Rightarrow>
                (True,
                 processPendingMessages
                   (storeRocket (setProcessed r' rocketID msgNumber) rocketID
                      (rocket'\<lparr>LastProcessedMessageNumber := msgNumber,
                               UpdatedAt := MessageTime msg\<rparr>))
                   rocketID)
            | (False, rocket', r') \<Rightarrow> (False, storeRocket r' rocketID rocket'))
         else if msgNumber > expectedMsgNumber then
           (True, setPending r rocketID msgNumber msg)
         else (False, r))"

definition ProcessMessage :: "RocketRepository \<Rightarrow> RocketMessage \<Rightarrow> bool \<times> RocketRepository" where
  "ProcessMessage r0 msg =
     (let rocketID = Channel msg;
          msgNumber = MessageNumber msg;
          r = initMaps r0 rocketID
      in if isProcessed r rocketID msgNumber then (True, r)
         else
           (case fmlookup (rockets r) rocketID of
              None \<Rightarrow>
                if MessageType msg \<noteq> MessageTypeRocketLaunched then
                  (True, setPending r rocketID msgNumber msg)
                else
                  processInSequence (storeRocket r rocketID (newRocketState rocketID))
                    (newRocketState rocketID) msg
            | Some rocket \<Rightarrow> processInSequence r rocket msg))"

text \<open>A run of the service: the messages are handed to \<open>ProcessMessage\<close> one by one.\<close>

fun ProcessAll :: "RocketRepository \<Rightarrow> RocketMessage list \<Rightarrow> RocketRepository" where
  "ProcessAll r [] = r"
| "ProcessAll r (msg # msgs) = ProcessAll (snd (ProcessMessage r msg)) msgs"

subsection \<open>storage: the queries\<close>

text \<open>\<open>GetRocket\<close> returns a copy and \<open>true\<close>, or \<open>nil\<close> and \<open>false\<close>.\<close>

definition GetRocket :: "RocketRepository \<Rightarrow> string \<Rightarrow> RocketState option" where
  "GetRocket r id' = fmlookup (rockets r) id'"

definition summaryOf :: "RocketState \<Rightarrow> RocketSummary" where
  "summaryOf rocket =
     \<lparr>Summary_ID = ID rocket, Summary_Type = Type rocket, Summary_Speed = Speed rocket,
      Summary_Mission = Mission rocket, Summary_Exploded = Exploded rocket,
      Summary_UpdatedAt = UpdatedAt rocket\<rparr>"

text \<open>
  \<open>GetAllRockets\<close> ranges over the map; Go leaves the order of that open, so the slice
  is given by the finite set of its elements.
\<close>

definition GetAllRockets :: "RocketRepository \<Rightarrow> RocketSummary fset" where
  "GetAllRockets r = summaryOf |`| fmran (rockets r)"

text \<open>
  \<open>GetDebugInfo\<close> counts the processed numbers and appends the pending numbers in the
  order in which \<open>range\<close> yields the keys. Go does not fix that order, and the function
  does not sort: any list that holds every pending key once is a possible result, and
  \<open>GetDebugInfo_returns r rocketID res\<close> says that \<open>res\<close> is one.
\<close>

definition GetDebugInfo_returns ::
  "RocketRepository \<Rightarrow> string \<Rightarrow> nat \<times> int list \<Rightarrow> bool" where
  "GetDebugInfo_returns r rocketID res =
     (case res of (processedCount, pendingNumbers) \<Rightarrow>
        processedCount =
          (case fmlookup (processedMessages r) rocketID of
             None \<Rightarrow> 0
           | Some processed \<Rightarrow> fcard (fmdom processed)) \<and>
        (case fmlookup (pendingMessages r) rocketID of
           None \<Rightarrow> pendingNumbers = []
         | Some pending \<Rightarrow>
             distinct pendingNumbers \<and> fset_of_list pendingNumbers = fmdom pending))"

subsection \<open>validation: what the handler lets through to \<open>ProcessMessage\<close>\<close>

definition isValidMessageType :: "string \<Rightarrow> bool" where
  "isValidMessageType messageType =
     (messageType \<in> set [MessageTypeRocketLaunched, MessageTypeRocketSpeedIncreased,
        MessageTypeRocketSpeedDecreased, MessageTypeRocketExploded,
        MessageTypeRocketMissionChanged])"

text \<open>\<open>ValidateRocketMessage\<close>: the name of the offending field, or \<open>None\<close> for \<open>nil\<close>.\<close>

definition ValidateRocketMessage :: "RocketMessage \<Rightarrow> string option" where
  "ValidateRocketMessage msg =
     (if Channel msg = [] then Some ''channel''
      else if MessageNumber msg \<le> 0 then Some ''messageNumber''
      else if IsZero (MessageTime msg) then Some ''messageTime''
      else if \<not> isValidMessageType (MessageType msg) then Some ''messageType''
      else if MessageType msg = MessageTypeRocketLaunched then
        (if Message_Type msg = [] then Some ''type''
         else if Message_Mission msg = [] then Some ''mission''
         else if Message_LaunchSpeed msg < 0 then Some ''launchSpeed''
         else None)
      else if MessageType msg = MessageTypeRocketSpeedIncreased
              \<or> MessageType msg = MessageTypeRocketSpeedDecreased then
        (if Message_By msg \<le> 0 then Some ''by'' else None)
      else if MessageType msg = MessageTypeRocketExploded then
        (if Message_Reason msg = [] then Some ''reason'' else None)
      else if MessageType msg = MessageTypeRocketMissionChanged then
        (if Message_NewMission msg = [] then Some ''newMission'' else None)
      else None)"

subsection \<open>Runs, test envelopes and the invariants of the repository\<close>

definition launchOnly :: "(int, RocketMessage) fmap \<Rightarrow> (int, RocketMessage) fmap" where
  "launchOnly p =
     fmfilter (\<lambda>msgNum. case fmlookup p msgNum of
                           None \<Rightarrow> False
                         | Some pendingMsg \<Rightarrow> MessageType pendingMsg = MessageTypeRocketLaunched) p"

definition chanInv :: "string \<Rightarrow> RocketState \<Rightarrow> RocketRepository \<Rightarrow> bool" where
  "chanInv c rocket r \<longleftrightarrow>
     ID rocket = c \<and> 0 \<le> LastProcessedMessageNumber rocket \<and>
     LastProcessedMessageNumber rocket < 2 ^ 63 \<and>
     fmlookup (processedMessages r) c \<noteq> None \<and> fmlookup (pendingMessages r) c \<noteq> None \<and>
     (\<forall>n \<in> fmdom' (processedFor r c). 1 \<le> n \<and> n \<le> LastProcessedMessageNumber rocket) \<and>
     (\<forall>n \<in> fmdom' (pendingFor r c). 0 < n)"

definition noRocketInv :: "string \<Rightarrow> RocketRepository \<Rightarrow> bool" where
  "noRocketInv c r \<longleftrightarrow>
     processedFor r c = fmempty \<and> (\<forall>n \<in> fmdom' (pendingFor r c). 0 < n)"

definition repoInv :: "RocketRepository \<Rightarrow> bool" where
  "repoInv r \<longleftrightarrow>
     (\<forall>c. case fmlookup (rockets r) c of
            None \<Rightarrow> noRocketInv c r
          | Some rocket \<Rightarrow> chanInv c rocket r)"

definition frame :: "string \<Rightarrow> RocketRepository \<Rightarrow> RocketRepository \<Rightarrow> bool" where
  "frame c r r' \<longleftrightarrow>
     rockets r' = rockets r \<and>
     (\<forall>c'. c' \<noteq> c \<longrightarrow>
        fmlookup (processedMessages r') c' = fmlookup (processedMessages r) c' \<and>
        fmlookup (pendingMessages r') c' = fmlookup (pendingMessages r) c')"

definition loopInv :: "string \<Rightarrow> RocketRepository \<Rightarrow> RocketState \<Rightarrow> RocketRepository \<Rightarrow> bool" where
  "loopInv c r0 rocket r \<longleftrightarrow> chanInv c rocket r \<and> frame c r0 r"

definition chanOK :: "string \<Rightarrow> RocketRepository \<Rightarrow> bool" where
  "chanOK c r \<longleftrightarrow>
     (case fmlookup (rockets r) c of
        None \<Rightarrow> noRocketInv c r
      | Some rocket \<Rightarrow> chanInv c rocket r)"

definition sameChan :: "string \<Rightarrow> RocketRepository \<Rightarrow> RocketRepository \<Rightarrow> bool" where
  "sameChan c r r' \<longleftrightarrow>
     fmlookup (rockets r') c = fmlookup (rockets r) c \<and>
     fmlookup (processedMessages r') c = fmlookup (processedMessages r) c \<and>
     fmlookup (pendingMessages r') c = fmlookup (pendingMessages r) c"

definition validNumbers :: "RocketMessage list \<Rightarrow> bool" where
  "validNumbers msgs = list_all (\<lambda>msg. 0 < MessageNumber msg) msgs"

definition freshChannel :: "RocketRepository \<Rightarrow> string \<Rightarrow> bool" where
  "freshChannel r c \<longleftrightarrow>
     fmlookup (rockets r) c = None \<and> fmlookup (processedMessages r) c = None \<and>
     fmlookup (pendingMessages r) c = None"

fun ProcessFlags :: "RocketRepository \<Rightarrow> RocketMessage list \<Rightarrow> bool list" where
  "ProcessFlags r [] = []"
| "ProcessFlags r (msg # msgs) =
     fst (ProcessMessage r msg) # ProcessFlags (snd (ProcessMessage r msg)) msgs"

definition emptyMessage :: RocketMessage where
  "emptyMessage =
     \<lparr>Channel = [], MessageNumber = 0, MessageTime = 0, MessageType = [], Message_Type = [],
      Message_LaunchSpeed = 0, Message_Mission = [], Message_By = 0, Message_Reason = [],
      Message_NewMission = []\<rparr>"

definition launched :: "string \<Rightarrow> int \<Rightarrow> timestamp \<Rightarrow> string \<Rightarrow> string \<Rightarrow> int \<Rightarrow> RocketMessage" where
  "launched c n t ty mission speed =
     emptyMessage\<lparr>Channel := c, MessageNumber := n, MessageTime := t,
       MessageType := MessageTypeRocketLaunched, Message_Type := ty,
       Message_Mission := mission, Message_LaunchSpeed := speed\<rparr>"

definition speedIncreased :: "string \<Rightarrow> int \<Rightarrow> timestamp \<Rightarrow> int \<Rightarrow> RocketMessage" where
  "speedIncreased c n t by' =
     emptyMessage\<lparr>Channel := c, MessageNumber := n, MessageTime := t,
       MessageType := MessageTypeRocketSpeedIncreased, Message_By := by'\<rparr>"

definition exploded :: "string \<Rightarrow> int \<Rightarrow> timestamp \<Rightarrow> string \<Rightarrow> RocketMessage" where
  "exploded c n t reason =
     emptyMessage\<lparr>Channel := c, MessageNumber := n, MessageTime := t,
       MessageType := MessageTypeRocketExploded, Message_Reason := reason\<rparr>"

definition grows :: "string \<Rightarrow> RocketRepository \<Rightarrow> RocketRepository \<Rightarrow> bool" where
  "grows c r r' \<longleftrightarrow>
     rockets r' = rockets r \<and>
     (\<forall>c'. c' \<noteq> c \<longrightarrow> fmlookup (processedMessages r') c' = fmlookup (processedMessages r) c') \<and>
     (\<forall>n. isProcessed r c n \<longrightarrow> isProcessed r' c n) \<and>
     (fmlookup (processedMessages r) c \<noteq> None \<longrightarrow> fmlookup (processedMessages r') c \<noteq> None) \<and>
     (fmlookup (pendingMessages r) c \<noteq> None \<longrightarrow> fmlookup (pendingMessages r') c \<noteq> None)"

definition weakInv :: "RocketRepository \<Rightarrow> bool" where
  "weakInv r \<longleftrightarrow> (\<forall>c. fmlookup (rockets r) c = None \<longrightarrow> processedFor r c = fmempty)"

definition sameElsewhere :: "string \<Rightarrow> RocketRepository \<Rightarrow> RocketRepository \<Rightarrow> bool" where
  "sameElsewhere c r r' \<longleftrightarrow>
     (\<forall>c'. c' \<noteq> c \<longrightarrow>
        fmlookup (rockets r') c' = fmlookup (rockets r) c' \<and>
        fmlookup (processedMessages r') c' = fmlookup (processedMessages r) c')"

definition speedDecreased :: "string \<Rightarrow> int \<Rightarrow> timestamp \<Rightarrow> int \<Rightarrow> RocketMessage" where
  "speedDecreased c n t by' =
     emptyMessage\<lparr>Channel := c, MessageNumber := n, MessageTime := t,
       MessageType := MessageTypeRocketSpeedDecreased, Message_By := by'\<rparr>"

definition speedGain :: "RocketMessage \<Rightarrow> int" where
  "speedGain msg =
     (if MessageType msg = MessageTypeRocketLaunched then max 0 (Message_LaunchSpeed msg)
      else if MessageType msg = MessageTypeRocketSpeedIncreased then max 0 (Message_By msg)
      else 0)"

definition speedFieldsOK :: "RocketMessage \<Rightarrow> bool" where
  "speedFieldsOK msg \<longleftrightarrow>
     (MessageType msg = MessageTypeRocketLaunched \<longrightarrow> 0 \<le> Message_LaunchSpeed msg) \<and>
     int64 (Message_By msg)"

definition pendingGain :: "(int, RocketMessage) fmap \<Rightarrow> int" where
  "pendingGain p = (\<Sum>n \<in> fmdom' p. speedGain (the (fmlookup p n)))"

definition submap :: "(int, RocketMessage) fmap \<Rightarrow> (int, RocketMessage) fmap \<Rightarrow> bool" where
  "submap q p \<longleftrightarrow> (\<forall>n m. fmlookup q n = Some m \<longrightarrow> fmlookup p n = Some m)"

definition pendingOK :: "int \<Rightarrow> int \<Rightarrow> (int, RocketMessage) fmap \<Rightarrow> bool" where
  "pendingOK T speed p \<longleftrightarrow>
     0 \<le> speed \<and> speed + pendingGain p \<le> T \<and>
     (\<forall>n m. fmlookup p n = Some m \<longrightarrow> speedFieldsOK m)"

definition speedOK :: "int \<Rightarrow> string \<Rightarrow> RocketRepository \<Rightarrow> bool" where
  "speedOK T c r \<longleftrightarrow>
     pendingOK T (case fmlookup (rockets r) c of None \<Rightarrow> 0 | Some rocket \<Rightarrow> Speed rocket)
       (pendingFor r c)"

definition speedInv :: "int \<Rightarrow> RocketRepository \<Rightarrow> bool" where
  "speedInv T r \<longleftrightarrow> (\<forall>c. speedOK T c r)"

definition loopSpeed ::
  "int \<Rightarrow> string \<Rightarrow> RocketRepository \<Rightarrow> RocketState \<Rightarrow> RocketRepository \<Rightarrow> bool" where
  "loopSpeed T c r0 rocket r \<longleftrightarrow>
     pendingOK T (Speed rocket) (pendingFor r c) \<and> rockets r = rockets r0 \<and>
     (\<forall>c'. submap (pendingFor r c') (pendingFor r0 c'))"

text \<open>
  For the order of arrival: \<open>received\<close> collects the messages of a run by number;
  \<open>replay F c j\<close> is the rocket after the messages 1 to \<open>j\<close> of \<open>F\<close> were applied in
  order; the cursor of \<open>F\<close> is the end of its gap-free prefix; \<open>family c F\<close> holds the
  conditions on the messages of a channel under which no arrival order loses one; and
  \<open>Rep r0 c F k\<close> describes the one repository reached from \<open>r0\<close> in which exactly the
  prefix up to \<open>k\<close> has been applied and the rest of \<open>F\<close> is pending.
\<close>

definition transition :: "RocketState \<Rightarrow> RocketMessage \<Rightarrow> RocketState" where
  "transition rocket msg = fst (snd (processMessageByType NewRocketRepository rocket msg))"

definition payloadOK :: "RocketMessage \<Rightarrow> bool" where
  "payloadOK msg = fst (processMessageByType NewRocketRepository (newRocketState []) msg)"

definition applied :: "RocketState \<Rightarrow> RocketMessage \<Rightarrow> RocketState" where
  "applied rocket msg =
     (transition rocket msg)\<lparr>LastProcessedMessageNumber := MessageNumber msg,
                               UpdatedAt := MessageTime msg\<rparr>"

fun replay :: "(int, RocketMessage) fmap \<Rightarrow> string \<Rightarrow> nat \<Rightarrow> RocketState" where
  "replay F c 0 = newRocketState c"
| "replay F c (Suc j) =
     (case fmlookup F (int (Suc j)) of
        None \<Rightarrow> replay F c j
      | Some msg \<Rightarrow> applied (replay F c j) msg)"

definition family :: "string \<Rightarrow> (int, RocketMessage) fmap \<Rightarrow> bool" where
  "family c F \<longleftrightarrow>
     (\<forall>n msg. fmlookup F n = Some msg \<longrightarrow>
        MessageNumber msg = n \<and> Channel msg = c \<and> 0 < n \<and> n < 2 ^ 63) \<and>
     (\<forall>msg. fmlookup F 1 = Some msg \<longrightarrow> MessageType msg = MessageTypeRocketLaunched) \<and>
     (\<forall>e msg n m.
        fmlookup F e = Some msg \<and> MessageType msg = MessageTypeRocketExploded \<and>
        (\<forall>i. 1 \<le> i \<and> i \<le> e \<longrightarrow> fmlookup F i \<noteq> None) \<and>
        e < n \<and> fmlookup F n = Some m \<longrightarrow>
        MessageType m = MessageTypeRocketLaunched)"

definition isCursor :: "(int, RocketMessage) fmap \<Rightarrow> int \<Rightarrow> bool" where
  "isCursor F k \<longleftrightarrow>
     0 \<le> k \<and> (\<forall>i. 1 \<le> i \<and> i \<le> k \<longrightarrow> fmlookup F i \<noteq> None) \<and> fmlookup F (k + 1) = None"

definition accOK :: "(int, RocketMessage) fmap \<Rightarrow> int \<Rightarrow> bool" where
  "accOK F K \<longleftrightarrow> (\<forall>i msg. 1 \<le> i \<and> i \<le> K \<longrightarrow> fmlookup F i = Some msg \<longrightarrow> payloadOK msg)"

definition hasLaunch :: "(int, RocketMessage) fmap \<Rightarrow> bool" where
  "hasLaunch F \<longleftrightarrow>
     (\<exists>n msg. fmlookup F n = Some msg \<and> MessageType msg = MessageTypeRocketLaunched)"

definition Rep ::
  "RocketRepository \<Rightarrow> string \<Rightarrow> (int, RocketMessage) fmap \<Rightarrow> int \<Rightarrow> RocketRepository \<Rightarrow> bool"
where
  "Rep r0 c F k r \<longleftrightarrow>
     (\<forall>c'. c' \<noteq> c \<longrightarrow>
        fmlookup (rockets r) c' = fmlookup (rockets r0) c' \<and>
        fmlookup (processedMessages r) c' = fmlookup (processedMessages r0) c' \<and>
        fmlookup (pendingMessages r) c' = fmlookup (pendingMessages r0) c') \<and>
     fmlookup (rockets r) c =
       (if k = 0 \<and> \<not> hasLaunch F then None else Some (replay F c (nat k))) \<and>
     (\<forall>n. fmlookup (processedFor r c) n = (if 1 \<le> n \<and> n \<le> k then Some True else None)) \<and>
     (\<forall>n. fmlookup (pendingFor r c) n = (if k < n then fmlookup F n else None)) \<and>
     ((fmlookup (processedMessages r) c = None) = (F = fmempty)) \<and>
     ((fmlookup (pendingMessages r) c = None) = (F = fmempty))"

definition onlyChan :: "string \<Rightarrow> RocketRepository \<Rightarrow> RocketRepository \<Rightarrow> bool" where
  "onlyChan c r r' \<longleftrightarrow>
     rockets r' = rockets r \<and>
     (\<forall>c'. c' \<noteq> c \<longrightarrow>
        fmlookup (processedMessages r') c' = fmlookup (processedMessages r) c' \<and>
        fmlookup (pendingMessages r') c' = fmlookup (pendingMessages r) c') \<and>
     ((fmlookup (processedMessages r') c = None) = (fmlookup (processedMessages r) c = None)) \<and>
     ((fmlookup (pendingMessages r') c = None) = (fmlookup (pendingMessages r) c = None))"

definition Mid ::
  "RocketRepository \<Rightarrow> string \<Rightarrow> (int, RocketMessage) fmap \<Rightarrow> int \<Rightarrow> RocketRepository \<Rightarrow> bool"
where
  "Mid r0 c F k r \<longleftrightarrow>
     (\<forall>c'. c' \<noteq> c \<longrightarrow>
        fmlookup (rockets r) c' = fmlookup (rockets r0) c' \<and>
        fmlookup (processedMessages r) c' = fmlookup (processedMessages r0) c' \<and>
        fmlookup (pendingMessages r) c' = fmlookup (pendingMessages r0) c') \<and>
     fmlookup (rockets r) c = Some (replay F c (nat k)) \<and>
     (\<forall>n. fmlookup (processedFor r c) n = (if 1 \<le> n \<and> n \<le> k then Some True else None)) \<and>
     (\<forall>n. fmlookup (pendingFor r c) n = (if k < n then fmlookup F n else None)) \<and>
     fmlookup (processedMessages r) c \<noteq> None \<and> fmlookup (pendingMessages r) c \<noteq> None"

definition subfamily :: "(int, RocketMessage) fmap \<Rightarrow> (int, RocketMessage) fmap \<Rightarrow> bool" where
  "subfamily F G \<longleftrightarrow> (\<forall>n msg. fmlookup F n = Some msg \<longrightarrow> fmlookup G n = Some msg)"

fun received :: "RocketMessage list \<Rightarrow> (int, RocketMessage) fmap" where
  "received [] = fmempty"
| "received (msg # msgs) = fmupd (MessageNumber msg) msg (received msgs)"

section \<open>Auxiliary facts\<close>

lemma wrap64_id: "int64 x \<Longrightarrow> wrap64 x = x"
  unfolding int64_def wrap64_def by (simp add: mod_pos_pos_trivial)

lemma wrap64_succ: "0 \<le> x \<Longrightarrow> x < 2 ^ 63 - 1 \<Longrightarrow> wrap64 (x + 1) = x + 1"
  by (rule wrap64_id) (simp add: int64_def)

lemma wrap64_max: "wrap64 (2 ^ 63 - 1 + 1) = - (2 ^ 63)"
  by (simp add: wrap64_def)

lemma wrap64_range: "int64 (wrap64 x)"
  unfolding int64_def wrap64_def
  using pos_mod_bound [of "2 ^ 64" "x + 2 ^ 63"] pos_mod_sign [of "2 ^ 64" "x + 2 ^ 63"]
  by simp

lemma processMessageByType_False:
  "processMessageByType r rocket msg = (False, rocket', r') \<Longrightarrow> rocket' = rocket \<and> r' = r"
  by (auto simp: processMessageByType_def Let_def split: if_splits)

lemma processMessageByType_repo:
  "processMessageByType r rocket msg = (ok, rocket', r') \<Longrightarrow>
     r' = r \<or> r' = clearPendingExceptLaunch r (ID rocket)"
  by (auto simp: processMessageByType_def Let_def split: if_splits)

lemma processMessageByType_keeps:
  "processMessageByType r rocket msg = (ok, rocket', r') \<Longrightarrow>
     ID rocket' = ID rocket \<and>
     LastProcessedMessageNumber rocket' = LastProcessedMessageNumber rocket \<and>
     UpdatedAt rocket' = UpdatedAt rocket"
  by (auto simp: processMessageByType_def Let_def split: if_splits)

lemma loop_none:
  "fmlookup (pendingFor r c) (wrap64 (LastProcessedMessageNumber rocket + 1)) = None \<Longrightarrow>
     processPendingLoop c rocket r = (rocket, r)"
  by (subst processPendingLoop.simps) simp

lemma loop_skip:
  "fmlookup (pendingFor r c) (wrap64 (LastProcessedMessageNumber rocket + 1)) = Some msg \<Longrightarrow>
   Exploded rocket \<Longrightarrow> MessageType msg \<noteq> MessageTypeRocketLaunched \<Longrightarrow>
     processPendingLoop c rocket r =
       processPendingLoop c rocket
         (deletePending r c (wrap64 (LastProcessedMessageNumber rocket + 1)))"
  by (subst processPendingLoop.simps) simp

lemma loop_ok:
  "fmlookup (pendingFor r c) (wrap64 (LastProcessedMessageNumber rocket + 1)) = Some msg \<Longrightarrow>
   \<not> (Exploded rocket \<and> MessageType msg \<noteq> MessageTypeRocketLaunched) \<Longrightarrow>
   processMessageByType r rocket msg = (True, rocket', r') \<Longrightarrow>
     processPendingLoop c rocket r =
       processPendingLoop c
         (rocket'\<lparr>LastProcessedMessageNumber := wrap64 (LastProcessedMessageNumber rocket + 1),
                  UpdatedAt := MessageTime msg\<rparr>)
         (deletePending (setProcessed r' c (wrap64 (LastProcessedMessageNumber rocket + 1))) c
            (wrap64 (LastProcessedMessageNumber rocket + 1)))"
  by (subst processPendingLoop.simps) (auto simp: Let_def)

lemma loop_fail:
  "fmlookup (pendingFor r c) (wrap64 (LastProcessedMessageNumber rocket + 1)) = Some msg \<Longrightarrow>
   \<not> (Exploded rocket \<and> MessageType msg \<noteq> MessageTypeRocketLaunched) \<Longrightarrow>
   processMessageByType r rocket msg = (False, rocket', r') \<Longrightarrow>
     processPendingLoop c rocket r =
       (rocket, deletePending r c (wrap64 (LastProcessedMessageNumber rocket + 1)))"
  using processMessageByType_False [of r rocket msg rocket' r']
  by (subst processPendingLoop.simps) (auto simp: Let_def)

lemma loop_rule:
  assumes init: "P rocket r"
    and exit: "\<And>rocket r. P rocket r \<Longrightarrow>
       fmlookup (pendingFor r c) (wrap64 (LastProcessedMessageNumber rocket + 1)) = None \<Longrightarrow>
       Q rocket r"
    and skip: "\<And>rocket r msg. P rocket r \<Longrightarrow>
       fmlookup (pendingFor r c) (wrap64 (LastProcessedMessageNumber rocket + 1)) = Some msg \<Longrightarrow>
       Exploded rocket \<Longrightarrow> MessageType msg \<noteq> MessageTypeRocketLaunched \<Longrightarrow>
       P rocket (deletePending r c (wrap64 (LastProcessedMessageNumber rocket + 1)))"
    and ok: "\<And>rocket r msg rocket' r'. P rocket r \<Longrightarrow>
       fmlookup (pendingFor r c) (wrap64 (LastProcessedMessageNumber rocket + 1)) = Some msg \<Longrightarrow>
       \<not> (Exploded rocket \<and> MessageType msg \<noteq> MessageTypeRocketLaunched) \<Longrightarrow>
       processMessageByType r rocket msg = (True, rocket', r') \<Longrightarrow>
       P (rocket'\<lparr>LastProcessedMessageNumber := wrap64 (LastProcessedMessageNumber rocket + 1),
                  UpdatedAt := MessageTime msg\<rparr>)
         (deletePending (setProcessed r' c (wrap64 (LastProcessedMessageNumber rocket + 1))) c
            (wrap64 (LastProcessedMessageNumber rocket + 1)))"
    and fail: "\<And>rocket r msg. P rocket r \<Longrightarrow>
       fmlookup (pendingFor r c) (wrap64 (LastProcessedMessageNumber rocket + 1)) = Some msg \<Longrightarrow>
       \<not> (Exploded rocket \<and> MessageType msg \<noteq> MessageTypeRocketLaunched) \<Longrightarrow>
       processMessageByType r rocket msg = (False, rocket, r) \<Longrightarrow>
       Q rocket (deletePending r c (wrap64 (LastProcessedMessageNumber rocket + 1)))"
  shows "case processPendingLoop c rocket r of (rocket', r') \<Rightarrow> Q rocket' r'"
  using assms
proof (induction c rocket r rule: processPendingLoop.induct)
  case (1 rocketID rocket r)
  let ?n = "wrap64 (LastProcessedMessageNumber rocket + 1)"
  note P = "1.prems"(1) and exit = "1.prems"(2) and skip = "1.prems"(3)
    and ok = "1.prems"(4) and fail = "1.prems"(5)
  show ?case
  proof (cases "fmlookup (pendingFor r rocketID) ?n")
    case None
    have "Q rocket r"
      by (rule exit [OF P None])
    then show ?thesis
      by (simp only: loop_none [OF None] prod.case)
  next
    case (Some msg)
    show ?thesis
    proof (cases "Exploded rocket \<and> MessageType msg \<noteq> MessageTypeRocketLaunched")
      case True
      then have ex: "Exploded rocket" and nl: "MessageType msg \<noteq> MessageTypeRocketLaunched"
        by simp_all
      have "P rocket (deletePending r rocketID ?n)"
        by (rule skip [OF P Some ex nl])
      then have "case processPendingLoop rocketID rocket (deletePending r rocketID ?n) of
                   (rocket', r') \<Rightarrow> Q rocket' r'"
        by (rule "1.IH"(1) [OF refl Some True _ exit skip ok fail])
      then show ?thesis
        by (simp only: loop_skip [OF Some ex nl])
    next
      case False
      obtain b rocket' r' where res: "processMessageByType r rocket msg = (b, rocket', r')"
        by (cases "processMessageByType r rocket msg") auto
      show ?thesis
      proof (cases b)
        case True
        with res have res': "processMessageByType r rocket msg = (True, rocket', r')"
          by simp
        have "P (rocket'\<lparr>LastProcessedMessageNumber := ?n, UpdatedAt := MessageTime msg\<rparr>)
                (deletePending (setProcessed r' rocketID ?n) rocketID ?n)"
          by (rule ok [OF P Some False res'])
        then have "case processPendingLoop rocketID
                     (rocket'\<lparr>LastProcessedMessageNumber := ?n, UpdatedAt := MessageTime msg\<rparr>)
                     (deletePending (setProcessed r' rocketID ?n) rocketID ?n) of
                   (rocket', r') \<Rightarrow> Q rocket' r'"
          by (rule "1.IH"(2) [OF refl Some False res' [symmetric] refl refl _ exit skip ok fail])
        then show ?thesis
          by (simp only: loop_ok [OF Some False res'])
      next
        case no: False
        with res have res': "processMessageByType r rocket msg = (False, rocket', r')"
          by simp
        then have same: "rocket' = rocket" "r' = r"
          using processMessageByType_False by blast+
        have "Q rocket (deletePending r rocketID ?n)"
          by (rule fail [OF P Some False res' [unfolded same]])
        then show ?thesis
          by (simp only: loop_fail [OF Some False res'] prod.case)
      qed
    qed
  qed
qed

lemma fmlookup_launchOnly:
  "fmlookup (launchOnly p) n =
     (case fmlookup p n of
        None \<Rightarrow> None
      | Some m \<Rightarrow> if MessageType m = MessageTypeRocketLaunched then Some m else None)"
  by (simp add: launchOnly_def split: option.splits)

lemma setProcessed_maps [simp]:
  "rockets (setProcessed r c n) = rockets r"
  "pendingMessages (setProcessed r c n) = pendingMessages r"
  "fmlookup (processedMessages (setProcessed r c n)) c' =
     (if c = c' then Some (fmupd n True (processedFor r c))
      else fmlookup (processedMessages r) c')"
  by (simp_all add: setProcessed_def)

lemma setPending_maps [simp]:
  "rockets (setPending r c n m) = rockets r"
  "processedMessages (setPending r c n m) = processedMessages r"
  "fmlookup (pendingMessages (setPending r c n m)) c' =
     (if c = c' then Some (fmupd n m (pendingFor r c)) else fmlookup (pendingMessages r) c')"
  by (simp_all add: setPending_def)

lemma deletePending_maps [simp]:
  "rockets (deletePending r c n) = rockets r"
  "processedMessages (deletePending r c n) = processedMessages r"
  "fmlookup (pendingMessages (deletePending r c n)) c' =
     (if c = c' then map_option (fmdrop n) (fmlookup (pendingMessages r) c)
      else fmlookup (pendingMessages r) c')"
  by (simp_all add: deletePending_def split: option.splits)

lemma clearPendingExceptLaunch_maps [simp]:
  "rockets (clearPendingExceptLaunch r c) = rockets r"
  "processedMessages (clearPendingExceptLaunch r c) = processedMessages r"
  "fmlookup (pendingMessages (clearPendingExceptLaunch r c)) c' =
     (if c = c' then map_option launchOnly (fmlookup (pendingMessages r) c)
      else fmlookup (pendingMessages r) c')"
  by (simp_all add: clearPendingExceptLaunch_def launchOnly_def split: option.splits)

lemma storeRocket_maps [simp]:
  "fmlookup (rockets (storeRocket r c rocket)) c' =
     (if c = c' then Some rocket else fmlookup (rockets r) c')"
  "processedMessages (storeRocket r c rocket) = processedMessages r"
  "pendingMessages (storeRocket r c rocket) = pendingMessages r"
  by (simp_all add: storeRocket_def)

lemma initMaps_maps [simp]:
  "rockets (initMaps r c) = rockets r"
  "fmlookup (processedMessages (initMaps r c)) c' =
     (if c = c' \<and> fmlookup (processedMessages r) c = None then Some fmempty
      else fmlookup (processedMessages r) c')"
  "fmlookup (pendingMessages (initMaps r c)) c' =
     (if c = c' \<and> fmlookup (pendingMessages r) c = None then Some fmempty
      else fmlookup (pendingMessages r) c')"
  by (auto simp: initMaps_def split: option.splits)

lemma processedFor_eq:
  "fmlookup (processedMessages r') c = fmlookup (processedMessages r) c \<Longrightarrow>
     processedFor r' c = processedFor r c"
  by (simp add: processedFor_def)

lemma pendingFor_eq:
  "fmlookup (pendingMessages r') c = fmlookup (pendingMessages r) c \<Longrightarrow>
     pendingFor r' c = pendingFor r c"
  by (simp add: pendingFor_def)

lemma processedFor_simps [simp]:
  "processedFor (setProcessed r c n) c' =
     (if c = c' then fmupd n True (processedFor r c) else processedFor r c')"
  "processedFor (setPending r c n m) c' = processedFor r c'"
  "processedFor (deletePending r c n) c' = processedFor r c'"
  "processedFor (clearPendingExceptLaunch r c) c' = processedFor r c'"
  "processedFor (storeRocket r c rocket) c' = processedFor r c'"
  "processedFor (initMaps r c) c' = processedFor r c'"
  by (auto simp: processedFor_def)

lemma pendingFor_simps [simp]:
  "pendingFor (setProcessed r c n) c' = pendingFor r c'"
  "pendingFor (setPending r c n m) c' =
     (if c = c' then fmupd n m (pendingFor r c) else pendingFor r c')"
  "pendingFor (deletePending r c n) c' =
     (if c = c' then fmdrop n (pendingFor r c) else pendingFor r c')"
  "pendingFor (clearPendingExceptLaunch r c) c' =
     (if c = c' then launchOnly (pendingFor r c) else pendingFor r c')"
  "pendingFor (storeRocket r c rocket) c' = pendingFor r c'"
  "pendingFor (initMaps r c) c' = pendingFor r c'"
  by (auto simp: pendingFor_def launchOnly_def split: option.splits)

lemma isProcessed_simps [simp]:
  "isProcessed (initMaps r c) c' n = isProcessed r c' n"
  "isProcessed (storeRocket r c rocket) c' n = isProcessed r c' n"
  by (simp_all add: isProcessed_def)

lemma frame_refl: "frame c r r"
  by (simp add: frame_def)

lemma next_number:
  assumes "0 \<le> l" "l < 2 ^ 63" "0 < wrap64 (l + 1)"
  shows "wrap64 (l + 1) = l + 1" "l + 1 < 2 ^ 63"
proof -
  have "l \<noteq> 2 ^ 63 - 1"
    using assms(3) by (auto simp: wrap64_def)
  then have "l < 2 ^ 63 - 1"
    using assms(2) by simp
  then show "wrap64 (l + 1) = l + 1"
    using assms(1) by (simp add: wrap64_succ)
  show "l + 1 < 2 ^ 63"
    using \<open>l < 2 ^ 63 - 1\<close> by simp
qed

lemma processMessageByType_maps:
  assumes "processMessageByType r rocket msg = (ok, rocket', r')"
  shows "rockets r' = rockets r" "processedMessages r' = processedMessages r"
    "(fmlookup (pendingMessages r') c' = None) = (fmlookup (pendingMessages r) c' = None)"
    "c' \<noteq> ID rocket \<Longrightarrow> fmlookup (pendingMessages r') c' = fmlookup (pendingMessages r) c'"
    "fmdom' (pendingFor r' c') \<subseteq> fmdom' (pendingFor r c')"
  using processMessageByType_repo [OF assms] fmdom'_pendingFor_processMessageByType [OF assms]
  by (auto split: if_splits)

lemma chanInv_applied:
  assumes inv: "chanInv c rocket r"
    and res: "processMessageByType r rocket msg = (True, rocket', r')"
    and pos: "0 < wrap64 (LastProcessedMessageNumber rocket + 1)"
  shows "chanInv c
           (rocket'\<lparr>LastProcessedMessageNumber := wrap64 (LastProcessedMessageNumber rocket + 1),
                    UpdatedAt := t\<rparr>)
           (deletePending (setProcessed r' c (wrap64 (LastProcessedMessageNumber rocket + 1))) c
              (wrap64 (LastProcessedMessageNumber rocket + 1)))"
proof -
  let ?l = "LastProcessedMessageNumber rocket"
  let ?n = "wrap64 (?l + 1)"
  have l: "0 \<le> ?l" "?l < 2 ^ 63"
    using inv by (simp_all add: chanInv_def)
  have n: "?n = ?l + 1" "?l + 1 < 2 ^ 63"
    using next_number [OF l pos] by simp_all
  have keep: "ID rocket' = c"
    using processMessageByType_keeps [OF res] inv by (simp add: chanInv_def)
  note maps = processMessageByType_maps [OF res]
  have proc: "processedFor r' c = processedFor r c"
    by (simp add: processedFor_def maps(2))
  have a: "0 \<le> ?n" "?n < 2 ^ 63"
    using n l by simp_all
  have b: "fmlookup (pendingMessages r') c \<noteq> None"
    using maps(3) [of c] inv by (simp add: chanInv_def)
  have c: "\<forall>k \<in> fmdom' (processedFor r c). 1 \<le> k \<and> k \<le> ?n"
    using inv n(1) by (auto simp: chanInv_def)
  have d: "\<forall>k \<in> fmdom' (pendingFor r' c). 0 < k"
    using inv maps(5) [of c] by (auto simp: chanInv_def)
  have e: "1 \<le> ?n"
    using pos by simp
  show ?thesis
    unfolding chanInv_def using keep a b c d e
    by (simp add: proc)
qed

lemma frame_applied:
  assumes "ID rocket = c"
    and res: "processMessageByType r rocket msg = (True, rocket', r')"
    and fr: "frame c r0 r"
  shows "frame c r0 (deletePending (setProcessed r' c n) c n)"
  using processMessageByType_repo [OF res] assms(1) fr
  by (auto simp: frame_def)

lemma chanInv_deletePending:
  "chanInv c rocket r \<Longrightarrow> chanInv c rocket (deletePending r c n)"
  by (simp add: chanInv_def)

lemma frame_deletePending: "frame c r0 r \<Longrightarrow> frame c r0 (deletePending r c n)"
  by (simp add: frame_def)

lemma loop_inv:
  assumes "chanInv c rocket r"
  shows "case processPendingLoop c rocket r of (rocket', r') \<Rightarrow> loopInv c r rocket' r'"
proof (rule loop_rule [where P = "loopInv c r" and Q = "loopInv c r"])
  show "loopInv c r rocket r"
    using assms by (simp add: loopInv_def frame_refl)
next
  fix rocket1 r1
  assume "loopInv c r rocket1 r1"
  then show "loopInv c r rocket1 r1" .
next
  fix rocket1 r1 msg
  assume "loopInv c r rocket1 r1"
  then show "loopInv c r rocket1 (deletePending r1 c (wrap64 (LastProcessedMessageNumber rocket1 + 1)))"
    by (simp add: loopInv_def chanInv_deletePending frame_deletePending)
next
  fix rocket1 r1 msg rocket' r'
  assume P: "loopInv c r rocket1 r1"
    and found: "fmlookup (pendingFor r1 c) (wrap64 (LastProcessedMessageNumber rocket1 + 1)) = Some msg"
    and res: "processMessageByType r1 rocket1 msg = (True, rocket', r')"
  have inv: "chanInv c rocket1 r1" and fr: "frame c r r1"
    using P by (simp_all add: loopInv_def)
  have "wrap64 (LastProcessedMessageNumber rocket1 + 1) \<in> fmdom' (pendingFor r1 c)"
    using found by (rule fmdom'I)
  then have pos: "0 < wrap64 (LastProcessedMessageNumber rocket1 + 1)"
    using inv unfolding chanInv_def by blast
  have idc: "ID rocket1 = c"
    using inv by (simp add: chanInv_def)
  show "loopInv c r
        (rocket'\<lparr>LastProcessedMessageNumber := wrap64 (LastProcessedMessageNumber rocket1 + 1),
                 UpdatedAt := MessageTime msg\<rparr>)
        (deletePending (setProcessed r' c (wrap64 (LastProcessedMessageNumber rocket1 + 1))) c
           (wrap64 (LastProcessedMessageNumber rocket1 + 1)))"
    unfolding loopInv_def
    using chanInv_applied [OF inv res pos] frame_applied [OF idc res fr] by simp
next
  fix rocket1 r1 msg
  assume "loopInv c r rocket1 r1"
  then show "loopInv c r rocket1 (deletePending r1 c (wrap64 (LastProcessedMessageNumber rocket1 + 1)))"
    by (simp add: loopInv_def chanInv_deletePending frame_deletePending)
qed

lemma repoInv_chanOK: "repoInv r \<longleftrightarrow> (\<forall>c. chanOK c r)"
  by (simp add: repoInv_def chanOK_def)

lemma sameChan_refl [simp]: "sameChan c r r"
  by (simp add: sameChan_def)

lemma sameChan_trans: "sameChan c r r' \<Longrightarrow> sameChan c r' r'' \<Longrightarrow> sameChan c r r''"
  by (simp add: sameChan_def)

lemma sameChan_chanOK: "sameChan c r r' \<Longrightarrow> chanOK c r' = chanOK c r"
  by (simp add: sameChan_def chanOK_def chanInv_def noRocketInv_def processedFor_def
      pendingFor_def split: option.splits)

lemma sameChan_updates:
  "c' \<noteq> c \<Longrightarrow> sameChan c' r (initMaps r c)"
  "c' \<noteq> c \<Longrightarrow> sameChan c' r (setPending r c n m)"
  "c' \<noteq> c \<Longrightarrow> sameChan c' r (setProcessed r c n)"
  "c' \<noteq> c \<Longrightarrow> sameChan c' r (deletePending r c n)"
  "c' \<noteq> c \<Longrightarrow> sameChan c' r (storeRocket r c rocket)"
  by (simp_all add: sameChan_def)

lemma sameChan_processMessageByType:
  "processMessageByType r rocket msg = (ok, rocket', r') \<Longrightarrow> c' \<noteq> ID rocket \<Longrightarrow>
     sameChan c' r r'"
  using processMessageByType_maps [of r rocket msg ok rocket' r']
  by (simp add: sameChan_def)

lemma sameChan_frame:
  "frame c r r' \<Longrightarrow> c' \<noteq> c \<Longrightarrow> sameChan c' r r'"
  by (simp add: frame_def sameChan_def)

lemma chanOK_initMaps: "chanOK c' r \<Longrightarrow> chanOK c' (initMaps r c)"
  by (auto simp: chanOK_def chanInv_def noRocketInv_def split: option.splits)

lemma processPendingMessages_loop:
  assumes "fmlookup (rockets r) c = Some rocket" and "chanInv c rocket r"
  obtains rocket' r' where "processPendingLoop c rocket r = (rocket', r')"
    and "processPendingMessages r c = storeRocket r' c rocket'"
    and "chanInv c rocket' r'" and "frame c r r'"
proof -
  obtain rocket' r' where l: "processPendingLoop c rocket r = (rocket', r')"
    by (cases "processPendingLoop c rocket r") auto
  moreover have "processPendingMessages r c = storeRocket r' c rocket'"
    using assms(1) l by (simp add: processPendingMessages_def)
  moreover have "chanInv c rocket' r'" "frame c r r'"
    using loop_inv [OF assms(2)] l by (simp_all add: loopInv_def)
  ultimately show thesis
    using that by blast
qed

lemma chanInv_storeRocket: "chanInv c rocket r \<Longrightarrow> chanInv c rocket (storeRocket r c' rocket')"
  by (simp add: chanInv_def)

lemma chanInv_setProcessed:
  assumes inv: "chanInv c rocket r"
    and res: "processMessageByType r rocket msg = (True, rocket', r')"
    and pos: "0 < wrap64 (LastProcessedMessageNumber rocket + 1)"
  shows "chanInv c
           (rocket'\<lparr>LastProcessedMessageNumber := wrap64 (LastProcessedMessageNumber rocket + 1),
                    UpdatedAt := t\<rparr>)
           (setProcessed r' c (wrap64 (LastProcessedMessageNumber rocket + 1)))"
proof -
  let ?l = "LastProcessedMessageNumber rocket"
  let ?n = "wrap64 (?l + 1)"
  have l: "0 \<le> ?l" "?l < 2 ^ 63"
    using inv by (simp_all add: chanInv_def)
  have n: "?n = ?l + 1" "?l + 1 < 2 ^ 63"
    using next_number [OF l pos] by simp_all
  have keep: "ID rocket' = c"
    using processMessageByType_keeps [OF res] inv by (simp add: chanInv_def)
  note maps = processMessageByType_maps [OF res]
  have proc: "processedFor r' c = processedFor r c"
    by (simp add: processedFor_def maps(2))
  have a: "0 \<le> ?n" "?n < 2 ^ 63"
    using n l by simp_all
  have b: "fmlookup (pendingMessages r') c \<noteq> None"
    using maps(3) [of c] inv by (simp add: chanInv_def)
  have c: "\<forall>k \<in> fmdom' (processedFor r c). 1 \<le> k \<and> k \<le> ?n"
    using inv n(1) by (auto simp: chanInv_def)
  have d: "\<forall>k \<in> fmdom' (pendingFor r' c). 0 < k"
    using inv maps(5) [of c] by (auto simp: chanInv_def)
  have e: "1 \<le> ?n"
    using pos by simp
  show ?thesis
    unfolding chanInv_def using keep a b c d e
    by (simp add: proc)
qed

lemma chanOK_Some: "fmlookup (rockets r) c = Some rocket \<Longrightarrow> chanOK c r = chanInv c rocket r"
  by (simp add: chanOK_def)

lemma chanInv_setPending:
  "chanInv c rocket r \<Longrightarrow> 0 < n \<Longrightarrow> chanInv c rocket (setPending r c n m)"
  by (simp add: chanInv_def)

lemma processInSequence_inv:
  assumes rk: "fmlookup (rockets r) c = Some rocket" and ch: "Channel msg = c"
    and inv: "chanInv c rocket r" and pos: "0 < MessageNumber msg"
  shows "chanOK c (snd (processInSequence r rocket msg)) \<and>
         (\<forall>c'. c' \<noteq> c \<longrightarrow> sameChan c' r (snd (processInSequence r rocket msg)))"
proof -
  let ?n = "MessageNumber msg"
  let ?e = "wrap64 (LastProcessedMessageNumber rocket + 1)"
  have idc: "ID rocket = c"
    using inv by (simp add: chanInv_def)
  consider (now) "?n = ?e" | (later) "?n \<noteq> ?e" "?n > ?e" | (old) "?n \<noteq> ?e" "\<not> ?n > ?e"
    by blast
  then show ?thesis
  proof cases
    case now
    obtain b rocket' r' where res: "processMessageByType r rocket msg = (b, rocket', r')"
      by (cases "processMessageByType r rocket msg") auto
    show ?thesis
    proof (cases b)
      case True
      with res have res': "processMessageByType r rocket msg = (True, rocket', r')"
        by simp
      let ?rocket2 = "rocket'\<lparr>LastProcessedMessageNumber := ?e, UpdatedAt := MessageTime msg\<rparr>"
      let ?r2 = "storeRocket (setProcessed r' c ?e) c ?rocket2"
      have pos': "0 < ?e"
        using pos now by simp
      have inv2: "chanInv c ?rocket2 ?r2"
        by (intro chanInv_storeRocket chanInv_setProcessed [OF inv res' pos'])
      have rk2: "fmlookup (rockets ?r2) c = Some ?rocket2"
        by simp
      obtain rocket3 r3 where fin: "processPendingMessages ?r2 c = storeRocket r3 c rocket3"
        and inv3: "chanInv c rocket3 r3" and fr: "frame c ?r2 r3"
        using processPendingMessages_loop [OF rk2 inv2] by blast
      have out: "snd (processInSequence r rocket msg) = storeRocket r3 c rocket3"
        using now res' ch fin by (simp add: processInSequence_def Let_def)
      have "chanOK c (storeRocket r3 c rocket3)"
        using inv3 by (simp add: chanOK_def chanInv_storeRocket)
      moreover have "sameChan c' r (storeRocket r3 c rocket3)" if "c' \<noteq> c" for c'
      proof -
        have "sameChan c' r r'"
          using sameChan_processMessageByType [OF res'] that idc by simp
        moreover have "sameChan c' r' ?r2"
          using that by (simp add: sameChan_def)
        moreover have "sameChan c' ?r2 r3"
          using sameChan_frame [OF fr that] .
        moreover have "sameChan c' r3 (storeRocket r3 c rocket3)"
          using that by (simp add: sameChan_def)
        ultimately show ?thesis
          by (blast intro: sameChan_trans)
      qed
      ultimately show ?thesis
        by (simp add: out)
    next
      case False
      with res have res': "processMessageByType r rocket msg = (False, rocket', r')"
        by simp
      then have same: "rocket' = rocket" "r' = r"
        using processMessageByType_False by blast+
      have out: "snd (processInSequence r rocket msg) = storeRocket r c rocket"
        using now res' ch same by (simp add: processInSequence_def Let_def)
      have "chanOK c (storeRocket r c rocket)"
        using inv by (simp add: chanOK_def chanInv_storeRocket)
      then show ?thesis
        by (simp add: out sameChan_def)
    qed
  next
    case later
    then have out: "snd (processInSequence r rocket msg) = setPending r c ?n msg"
      using ch by (simp add: processInSequence_def Let_def)
    have "chanOK c (setPending r c ?n msg)"
      using rk inv pos by (simp add: chanOK_def chanInv_setPending)
    then show ?thesis
      by (simp add: out sameChan_def)
  next
    case old
    then have out: "snd (processInSequence r rocket msg) = r"
      using ch by (simp add: processInSequence_def Let_def)
    show ?thesis
      using rk inv by (simp add: out chanOK_def)
  qed
qed

lemma chanInv_newRocketState:
  assumes "fmlookup (rockets r) c = None" and "noRocketInv c r"
  shows "chanInv c (newRocketState c) (storeRocket (initMaps r c) c (newRocketState c))"
  using assms by (auto simp: chanInv_def noRocketInv_def newRocketState_def)

lemma ProcessMessage_inv:
  assumes inv: "repoInv r" and pos: "0 < MessageNumber msg"
  shows "chanOK (Channel msg) (snd (ProcessMessage r msg)) \<and>
         (\<forall>c'. c' \<noteq> Channel msg \<longrightarrow> sameChan c' r (snd (ProcessMessage r msg)))"
proof -
  let ?c = "Channel msg" and ?n = "MessageNumber msg"
  let ?r1 = "initMaps r ?c"
  have ok0: "chanOK ?c r"
    using inv by (simp add: repoInv_chanOK)
  have ok1: "chanOK ?c ?r1"
    by (rule chanOK_initMaps [OF ok0])
  have same1: "sameChan c' r ?r1" if "c' \<noteq> ?c" for c'
    using that by (simp add: sameChan_def)
  show ?thesis
  proof (cases "isProcessed ?r1 ?c ?n")
    case True
    then have "snd (ProcessMessage r msg) = ?r1"
      by (simp add: ProcessMessage_def Let_def)
    then show ?thesis
      using ok1 same1 by simp
  next
    case False
    show ?thesis
    proof (cases "fmlookup (rockets r) ?c")
      case None
      show ?thesis
      proof (cases "MessageType msg \<noteq> MessageTypeRocketLaunched")
        case True
        then have out: "snd (ProcessMessage r msg) = setPending ?r1 ?c ?n msg"
          using False None by (simp add: ProcessMessage_def Let_def)
        have "chanOK ?c (setPending ?r1 ?c ?n msg)"
          using ok0 None pos by (simp add: chanOK_def noRocketInv_def)
        then show ?thesis
          by (simp add: out sameChan_def)
      next
        case launch: False
        let ?r2 = "storeRocket ?r1 ?c (newRocketState ?c)"
        have out: "snd (ProcessMessage r msg) = snd (processInSequence ?r2 (newRocketState ?c) msg)"
          using False None launch by (simp add: ProcessMessage_def Let_def)
        have "noRocketInv ?c r"
          using ok0 None by (simp add: chanOK_def)
        then have inv2: "chanInv ?c (newRocketState ?c) ?r2"
          by (rule chanInv_newRocketState [OF None])
        have rk2: "fmlookup (rockets ?r2) ?c = Some (newRocketState ?c)"
          by simp
        have same2: "sameChan c' r ?r2" if "c' \<noteq> ?c" for c'
          using that by (simp add: sameChan_def)
        show ?thesis
          using processInSequence_inv [OF rk2 refl inv2 pos] same2
          unfolding out by (blast intro: sameChan_trans)
      qed
    next
      case (Some rocket)
      then have out: "snd (ProcessMessage r msg) = snd (processInSequence ?r1 rocket msg)"
        using False by (simp add: ProcessMessage_def Let_def)
      have rk1: "fmlookup (rockets ?r1) ?c = Some rocket"
        using Some by simp
      have inv1: "chanInv ?c rocket ?r1"
        using ok1 rk1 by (simp add: chanOK_def)
      show ?thesis
        using processInSequence_inv [OF rk1 refl inv1 pos] same1
        unfolding out by (blast intro: sameChan_trans)
    qed
  qed
qed

lemma ProcessMessage_repoInv:
  assumes "repoInv r" and "0 < MessageNumber msg"
  shows "repoInv (snd (ProcessMessage r msg))"
  unfolding repoInv_chanOK
proof
  fix c
  show "chanOK c (snd (ProcessMessage r msg))"
  proof (cases "c = Channel msg")
    case True
    then show ?thesis
      using ProcessMessage_inv [OF assms] by simp
  next
    case False
    then have "sameChan c r (snd (ProcessMessage r msg))"
      using ProcessMessage_inv [OF assms] by simp
    then show ?thesis
      using assms(1) by (simp add: sameChan_chanOK repoInv_chanOK)
  qed
qed

lemma repoInv_New: "repoInv NewRocketRepository"
  by (simp add: repoInv_def NewRocketRepository_def noRocketInv_def processedFor_def
      pendingFor_def)

lemma ProcessAll_repoInv:
  "repoInv r \<Longrightarrow> validNumbers msgs \<Longrightarrow> repoInv (ProcessAll r msgs)"
  by (induction msgs arbitrary: r) (simp_all add: validNumbers_def ProcessMessage_repoInv)

lemmas msg_defs = emptyMessage_def launched_def speedIncreased_def exploded_def
  MessageTypeRocketLaunched_def MessageTypeRocketSpeedIncreased_def
  MessageTypeRocketSpeedDecreased_def MessageTypeRocketExploded_def
  MessageTypeRocketMissionChanged_def

lemma fresh_maps:
  assumes "freshChannel r c"
  shows "processedFor r c = fmempty" "pendingFor r c = fmempty"
    "fmlookup (rockets r) c = None"
  using assms by (simp_all add: freshChannel_def processedFor_def pendingFor_def)

lemma fresh_launch:
  assumes fr: "freshChannel r c"
    and m1: "Channel m1 = c" "MessageNumber m1 = 1" "MessageType m1 = MessageTypeRocketLaunched"
      "Message_Type m1 \<noteq> []" "Message_Mission m1 \<noteq> []"
  shows "ProcessMessage r m1 =
    (True,
     storeRocket (setProcessed (storeRocket (initMaps r c) c (newRocketState c)) c 1) c
       \<lparr>ID = c, Type = Message_Type m1, Speed = Message_LaunchSpeed m1,
        Mission = Message_Mission m1, Exploded = False, Reason = [],
        CreatedAt = MessageTime m1, UpdatedAt = MessageTime m1,
        LastProcessedMessageNumber = 1\<rparr>)"
proof -
  let ?r2 = "storeRocket (initMaps r c) c (newRocketState c)"
  let ?rocket = "\<lparr>ID = c, Type = Message_Type m1, Speed = Message_LaunchSpeed m1,
        Mission = Message_Mission m1, Exploded = False, Reason = [],
        CreatedAt = MessageTime m1, UpdatedAt = MessageTime m1,
        LastProcessedMessageNumber = 1\<rparr>"
  note f = fresh_maps [OF fr]
  have np: "\<not> isProcessed (initMaps r c) c 1"
    by (simp add: isProcessed_def f)
  have app: "processMessageByType ?r2 (newRocketState c) m1 =
      (True, ?rocket\<lparr>UpdatedAt := 0, LastProcessedMessageNumber := 0\<rparr>, ?r2)"
    using m1 by (simp add: processMessageByType_def newRocketState_def IsZero_def)
  let ?r3 = "storeRocket (setProcessed ?r2 c 1) c ?rocket"
  have "fmlookup (pendingFor ?r3 c) (wrap64 (LastProcessedMessageNumber ?rocket + 1)) = None"
    by (simp add: f)
  then have "processPendingLoop c ?rocket ?r3 = (?rocket, ?r3)"
    by (rule loop_none)
  then have drain: "processPendingMessages ?r3 c = storeRocket ?r3 c ?rocket"
    by (simp add: processPendingMessages_def)
  have idem: "storeRocket ?r3 c ?rocket = ?r3"
    by (simp add: storeRocket_def)
  have "processInSequence ?r2 (newRocketState c) m1 = (True, ?r3)"
    using m1(1,2) app drain idem
    by (simp add: processInSequence_def Let_def newRocketState_def wrap64_def)
  then show ?thesis
    using np f(3) m1(1,2,3) by (simp add: ProcessMessage_def Let_def)
qed

lemma initMaps_id:
  "fmlookup (processedMessages r) c \<noteq> None \<Longrightarrow> fmlookup (pendingMessages r) c \<noteq> None \<Longrightarrow>
     initMaps r c = r"
  by (auto simp: initMaps_def)

lemma storeRocket_id: "fmlookup (rockets r) c = Some rocket \<Longrightarrow> storeRocket r c rocket = r"
proof -
  assume a: "fmlookup (rockets r) c = Some rocket"
  have "fmupd c rocket (rockets r) = rockets r"
    by (rule fmap_ext) (auto simp: a)
  then show ?thesis
    by (simp add: storeRocket_def)
qed

lemma ProcessMessage_existing:
  assumes "fmlookup (rockets r) (Channel msg) = Some rocket"
    and "fmlookup (processedMessages r) (Channel msg) \<noteq> None"
    and "fmlookup (pendingMessages r) (Channel msg) \<noteq> None"
    and "\<not> isProcessed r (Channel msg) (MessageNumber msg)"
  shows "ProcessMessage r msg = processInSequence r rocket msg"
  using assms by (simp add: ProcessMessage_def Let_def initMaps_id)

lemma processInSequence_later:
  assumes "wrap64 (LastProcessedMessageNumber rocket + 1) < MessageNumber msg"
  shows "processInSequence r rocket msg =
           (True, setPending r (Channel msg) (MessageNumber msg) msg)"
  using assms by (simp add: processInSequence_def Let_def)

lemma processInSequence_applied:
  assumes "MessageNumber msg = wrap64 (LastProcessedMessageNumber rocket + 1)"
    and "processMessageByType r rocket msg = (True, rocket', r')"
  shows "processInSequence r rocket msg =
           (True,
            processPendingMessages
              (storeRocket (setProcessed r' (Channel msg) (MessageNumber msg)) (Channel msg)
                 (rocket'\<lparr>LastProcessedMessageNumber := MessageNumber msg,
                          UpdatedAt := MessageTime msg\<rparr>))
              (Channel msg))"
  using assms by (simp add: processInSequence_def Let_def)

lemma processInSequence_rejected:
  assumes "MessageNumber msg = wrap64 (LastProcessedMessageNumber rocket + 1)"
    and "processMessageByType r rocket msg = (False, rocket', r')"
    and "fmlookup (rockets r) (Channel msg) = Some rocket"
  shows "processInSequence r rocket msg = (False, r)"
  using assms processMessageByType_False [OF assms(2)]
  by (simp add: processInSequence_def Let_def storeRocket_id)

lemma processPendingMessages_none:
  assumes "fmlookup (rockets r) c = Some rocket"
    and "fmlookup (pendingFor r c) (wrap64 (LastProcessedMessageNumber rocket + 1)) = None"
  shows "processPendingMessages r c = r"
  using assms loop_none [OF assms(2)]
  by (simp add: processPendingMessages_def storeRocket_id)

lemma run_repoInv: "validNumbers msgs \<Longrightarrow> repoInv (ProcessAll NewRocketRepository msgs)"
  by (rule ProcessAll_repoInv [OF repoInv_New])

lemma repoInv_rocket:
  assumes "repoInv r" and "fmlookup (rockets r) c = Some rocket"
  shows "chanInv c rocket r"
proof -
  have "chanOK c r"
    using assms(1) by (simp add: repoInv_chanOK)
  then show ?thesis
    by (simp add: chanOK_def assms(2))
qed

lemma repoInv_no_rocket:
  assumes "repoInv r" and "fmlookup (rockets r) c = None"
  shows "noRocketInv c r"
proof -
  have "chanOK c r"
    using assms(1) by (simp add: repoInv_chanOK)
  then show ?thesis
    by (simp add: chanOK_def assms(2))
qed

lemma chanInv_not_processed_ahead:
  assumes "chanInv c rocket r" and "LastProcessedMessageNumber rocket < n"
  shows "\<not> isProcessed r c n"
proof
  assume "isProcessed r c n"
  then have "n \<in> fmdom' (processedFor r c)"
    by (simp add: isProcessed_def fmdom'I)
  then have "n \<le> LastProcessedMessageNumber rocket"
    using assms(1) unfolding chanInv_def by blast
  then show False
    using assms(2) by simp
qed

lemma chanInv_not_processed_next:
  assumes "chanInv c rocket r"
  shows "\<not> isProcessed r c (wrap64 (LastProcessedMessageNumber rocket + 1))"
proof
  let ?l = "LastProcessedMessageNumber rocket"
  assume "isProcessed r c (wrap64 (?l + 1))"
  then have "wrap64 (?l + 1) \<in> fmdom' (processedFor r c)"
    by (simp add: isProcessed_def fmdom'I)
  then have k: "1 \<le> wrap64 (?l + 1)" "wrap64 (?l + 1) \<le> ?l"
    using assms unfolding chanInv_def by blast+
  have l: "0 \<le> ?l" "?l < 2 ^ 63"
    using assms by (simp_all add: chanInv_def)
  have "wrap64 (?l + 1) = ?l + 1"
    using next_number(1) [OF l] k(1) by simp
  then show False
    using k(2) by simp
qed

lemma chanInv_maps:
  assumes "chanInv c rocket r"
  shows "fmlookup (processedMessages r) c \<noteq> None" "fmlookup (pendingMessages r) c \<noteq> None"
  using assms by (simp_all add: chanInv_def)

lemma exploded_gate:
  "Exploded rocket \<Longrightarrow> MessageType msg \<noteq> MessageTypeRocketLaunched \<Longrightarrow>
     processMessageByType r rocket msg = (False, rocket, r)"
  by (simp add: processMessageByType_def)

lemma unknown_type_rejected:
  "\<not> isValidMessageType (MessageType msg) \<Longrightarrow>
     processMessageByType r rocket msg = (False, rocket, r)"
  by (simp add: processMessageByType_def isValidMessageType_def)

lemma ProcessMessage_rejecting_keeps_rockets:
  assumes "\<And>r rocket. processMessageByType r rocket msg = (False, rocket, r)"
    and "MessageType msg \<noteq> MessageTypeRocketLaunched"
  shows "rockets (snd (ProcessMessage r msg)) = rockets r"
proof -
  have seq: "rockets (snd (processInSequence r1 rocket msg)) = rockets r1"
    if "fmlookup (rockets r1) (Channel msg) = Some rocket" for r1 rocket
    using that assms(1) [of r1 rocket]
    by (simp add: processInSequence_def Let_def storeRocket_id)
  show ?thesis
    using assms(2) seq [of "initMaps r (Channel msg)"]
    by (auto simp: ProcessMessage_def Let_def split: option.splits)
qed

lemma grows_refl: "grows c r r"
  by (simp add: grows_def)

lemma grows_deletePending: "grows c r0 r \<Longrightarrow> grows c r0 (deletePending r c n)"
  by (simp add: grows_def isProcessed_def)

lemma grows_applied:
  assumes "grows c r0 r" and "processMessageByType r rocket msg = (ok, rocket', r')"
  shows "grows c r0 (deletePending (setProcessed r' c n) c n)"
proof -
  note maps = processMessageByType_maps [OF assms(2)]
  have "processedFor r' c = processedFor r c"
    by (simp add: processedFor_def maps(2))
  then show ?thesis
    using assms(1) maps(1,2) maps(3) [of c]
    by (simp add: grows_def isProcessed_def)
qed

lemma loop_grows:
  "case processPendingLoop c rocket r of (rocket', r') \<Rightarrow> grows c r r'"
proof (rule loop_rule [where P = "\<lambda>rocket'. grows c r" and Q = "\<lambda>rocket'. grows c r"])
  show "grows c r r"
    by (rule grows_refl)
qed (simp_all add: grows_deletePending grows_applied)

lemma processPendingMessages_grows:
  assumes "fmlookup (rockets r) c = Some rocket"
  obtains rocket' r' where "processPendingMessages r c = storeRocket r' c rocket'"
    and "grows c r r'"
proof -
  obtain rocket' r' where l: "processPendingLoop c rocket r = (rocket', r')"
    by (cases "processPendingLoop c rocket r") auto
  moreover have "processPendingMessages r c = storeRocket r' c rocket'"
    using assms l by (simp add: processPendingMessages_def)
  moreover have "grows c r r'"
    using loop_grows [where c = c and rocket = rocket and r = r] l by simp
  ultimately show thesis
    using that by blast
qed




lemma processInSequence_rockets:
  assumes rk: "fmlookup (rockets r) (Channel msg) = Some rocket"
  shows "fmlookup (rockets (snd (processInSequence r rocket msg))) (Channel msg) \<noteq> None \<and>
         sameElsewhere (Channel msg) r (snd (processInSequence r rocket msg))"
proof -
  let ?c = "Channel msg" and ?n = "MessageNumber msg"
  let ?e = "wrap64 (LastProcessedMessageNumber rocket + 1)"
  consider (now) "?n = ?e" | (later) "?e < ?n" | (old) "?n \<noteq> ?e" "\<not> ?e < ?n"
    by fastforce
  then show ?thesis
  proof cases
    case now
    obtain b rocket' r' where res: "processMessageByType r rocket msg = (b, rocket', r')"
      by (cases "processMessageByType r rocket msg") auto
    show ?thesis
    proof (cases b)
      case True
      with res have res': "processMessageByType r rocket msg = (True, rocket', r')"
        by simp
      let ?rocket2 = "rocket'\<lparr>LastProcessedMessageNumber := ?n, UpdatedAt := MessageTime msg\<rparr>"
      let ?r2 = "storeRocket (setProcessed r' ?c ?n) ?c ?rocket2"
      have seq: "processInSequence r rocket msg = (True, processPendingMessages ?r2 ?c)"
        by (rule processInSequence_applied [OF now res'])
      have "fmlookup (rockets ?r2) ?c = Some ?rocket2"
        by simp
      then obtain rocket3 r3 where fin: "processPendingMessages ?r2 ?c = storeRocket r3 ?c rocket3"
        and g: "grows ?c ?r2 r3"
        by (rule processPendingMessages_grows)
      note maps = processMessageByType_maps [OF res']
      have "sameElsewhere ?c r (storeRocket r3 ?c rocket3)"
        using g maps(1,2) by (simp add: sameElsewhere_def grows_def)
      then show ?thesis
        by (simp add: seq fin)
    next
      case False
      with res have "processMessageByType r rocket msg = (False, rocket', r')"
        by simp
      then have "processInSequence r rocket msg = (False, r)"
        by (rule processInSequence_rejected [OF now _ rk])
      then show ?thesis
        using rk by (simp add: sameElsewhere_def)
    qed
  next
    case later
    then show ?thesis
      using rk by (simp add: processInSequence_later sameElsewhere_def)
  next
    case old
    then have "processInSequence r rocket msg = (False, r)"
      by (simp add: processInSequence_def Let_def)
    then show ?thesis
      using rk by (simp add: sameElsewhere_def)
  qed
qed

lemma ProcessMessage_rockets_all:
  fixes r msg
  defines "c \<equiv> Channel msg" and "r' \<equiv> snd (ProcessMessage r msg)"
  shows "sameElsewhere c r r' \<and>
      (fmlookup (rockets r) c \<noteq> None \<longrightarrow> fmlookup (rockets r') c \<noteq> None) \<and>
      (fmlookup (rockets r') c = None \<longrightarrow> processedFor r' c = processedFor r c) \<and>
      (MessageType msg = MessageTypeRocketLaunched \<longrightarrow>
         \<not> isProcessed r c (MessageNumber msg) \<longrightarrow> fmlookup (rockets r') c \<noteq> None) \<and>
      (fmlookup (rockets r') c \<noteq> None \<longrightarrow>
         fmlookup (rockets r) c \<noteq> None \<or> MessageType msg = MessageTypeRocketLaunched)"
proof -
  let ?n = "MessageNumber msg"
  let ?r1 = "initMaps r c"
  show ?thesis
  proof (cases "isProcessed ?r1 c ?n")
    case True
    then have "r' = ?r1"
      by (simp add: r'_def c_def ProcessMessage_def Let_def)
    then show ?thesis
      using True by (simp add: sameElsewhere_def)
  next
    case False
    show ?thesis
    proof (cases "fmlookup (rockets r) c")
      case None
      show ?thesis
      proof (cases "MessageType msg \<noteq> MessageTypeRocketLaunched")
        case True
        then have "r' = setPending ?r1 c ?n msg"
          using False None by (simp add: r'_def c_def ProcessMessage_def Let_def)
        then show ?thesis
          using True None by (simp add: sameElsewhere_def)
      next
        case launch: False
        let ?r2 = "storeRocket ?r1 c (newRocketState c)"
        have out: "r' = snd (processInSequence ?r2 (newRocketState c) msg)"
          using False None launch by (simp add: r'_def c_def ProcessMessage_def Let_def)
        have "fmlookup (rockets ?r2) (Channel msg) = Some (newRocketState c)"
          by (simp add: c_def)
        from processInSequence_rockets [OF this]
        have "fmlookup (rockets r') c \<noteq> None" "sameElsewhere c ?r2 r'"
          by (simp_all add: out c_def)
        then show ?thesis
          using launch by (auto simp: sameElsewhere_def)
      qed
    next
      case (Some rocket)
      have out: "r' = snd (processInSequence ?r1 rocket msg)"
        using False Some by (simp add: r'_def c_def ProcessMessage_def Let_def)
      have "fmlookup (rockets ?r1) (Channel msg) = Some rocket"
        using Some by (simp add: c_def)
      from processInSequence_rockets [OF this]
      have "fmlookup (rockets r') c \<noteq> None" "sameElsewhere c ?r1 r'"
        by (simp_all add: out c_def)
      then show ?thesis
        using Some by (auto simp: sameElsewhere_def)
    qed
  qed
qed

lemma ProcessMessage_rockets:
  shows "sameElsewhere (Channel msg) r (snd (ProcessMessage r msg))"
    and "fmlookup (rockets r) (Channel msg) \<noteq> None \<Longrightarrow>
           fmlookup (rockets (snd (ProcessMessage r msg))) (Channel msg) \<noteq> None"
    and "fmlookup (rockets (snd (ProcessMessage r msg))) (Channel msg) = None \<Longrightarrow>
           processedFor (snd (ProcessMessage r msg)) (Channel msg) = processedFor r (Channel msg)"
    and "MessageType msg = MessageTypeRocketLaunched \<Longrightarrow>
           \<not> isProcessed r (Channel msg) (MessageNumber msg) \<Longrightarrow>
           fmlookup (rockets (snd (ProcessMessage r msg))) (Channel msg) \<noteq> None"
    and "fmlookup (rockets (snd (ProcessMessage r msg))) (Channel msg) \<noteq> None \<Longrightarrow>
           fmlookup (rockets r) (Channel msg) \<noteq> None \<or>
           MessageType msg = MessageTypeRocketLaunched"
  using ProcessMessage_rockets_all [where r = r and msg = msg] by blast+

lemma weakInv_ProcessMessage:
  assumes "weakInv r"
  shows "weakInv (snd (ProcessMessage r msg))"
  unfolding weakInv_def
proof (intro allI impI)
  fix c
  let ?r' = "snd (ProcessMessage r msg)"
  assume none: "fmlookup (rockets ?r') c = None"
  show "processedFor ?r' c = fmempty"
  proof (cases "c = Channel msg")
    case True
    have "fmlookup (rockets r) c = None"
      using ProcessMessage_rockets(2) [where r = r and msg = msg] none True
      by (cases "fmlookup (rockets r) c") simp_all
    then have "processedFor r c = fmempty"
      using assms by (simp add: weakInv_def)
    then show ?thesis
      using ProcessMessage_rockets(3) [where r = r and msg = msg] none True by simp
  next
    case False
    then have same: "fmlookup (rockets ?r') c = fmlookup (rockets r) c"
      "fmlookup (processedMessages ?r') c = fmlookup (processedMessages r) c"
      using ProcessMessage_rockets(1) [where r = r and msg = msg] by (simp_all add: sameElsewhere_def)
    then have "processedFor r c = fmempty"
      using assms none by (simp add: weakInv_def)
    then show ?thesis
      using same(2) by (simp add: processedFor_def)
  qed
qed

lemma rocket_after_ProcessMessage:
  assumes "weakInv r"
  shows "fmlookup (rockets (snd (ProcessMessage r msg))) c \<noteq> None \<longleftrightarrow>
           fmlookup (rockets r) c \<noteq> None \<or>
           (Channel msg = c \<and> MessageType msg = MessageTypeRocketLaunched)"
proof (cases "c = Channel msg")
  case True
  let ?r' = "snd (ProcessMessage r msg)"
  have "fmlookup (rockets ?r') c \<noteq> None"
    if "MessageType msg = MessageTypeRocketLaunched" "fmlookup (rockets r) c = None"
  proof -
    have "processedFor r c = fmempty"
      using assms that(2) by (simp add: weakInv_def)
    then have "\<not> isProcessed r (Channel msg) (MessageNumber msg)"
      using True by (simp add: isProcessed_def)
    then show ?thesis
      using ProcessMessage_rockets(4) [OF that(1)] True by simp
  qed
  then show ?thesis
    using ProcessMessage_rockets(2,5) [where r = r and msg = msg] True by blast
next
  case False
  then show ?thesis
    using ProcessMessage_rockets(1) [where r = r and msg = msg] by (simp add: sameElsewhere_def)
qed

lemma rocket_after_ProcessAll:
  "weakInv r \<Longrightarrow>
     fmlookup (rockets (ProcessAll r msgs)) c \<noteq> None \<longleftrightarrow>
       fmlookup (rockets r) c \<noteq> None \<or>
       (\<exists>m \<in> set msgs. Channel m = c \<and> MessageType m = MessageTypeRocketLaunched)"
proof (induction msgs arbitrary: r)
  case Nil
  then show ?case by simp
next
  case (Cons m msgs)
  have "weakInv (snd (ProcessMessage r m))"
    by (rule weakInv_ProcessMessage [OF Cons.prems])
  from Cons.IH [OF this] rocket_after_ProcessMessage [OF Cons.prems, of m c]
  show ?case
    by auto
qed

lemma weakInv_ProcessAll: "weakInv r \<Longrightarrow> weakInv (ProcessAll r msgs)"
  by (induction msgs arbitrary: r) (simp_all add: weakInv_ProcessMessage)

lemma weakInv_New: "weakInv NewRocketRepository"
  by (simp add: weakInv_def NewRocketRepository_def processedFor_def)

lemmas run_defs = ProcessMessage_def processInSequence_def processPendingMessages_def
  processMessageByType_def processPendingLoop.simps initMaps_def storeRocket_def
  setPending_def setProcessed_def deletePending_def clearPendingExceptLaunch_def
  isProcessed_def processedFor_def pendingFor_def newRocketState_def NewRocketRepository_def
  wrap64_def IsZero_def GetRocket_def Let_def

lemma fcard_fmdom: "fcard (fmdom m) = card (fmdom' m)"
  by (simp add: fcard.rep_eq fmdom'_alt_def)

lemma speedGain_nonneg: "0 \<le> speedGain msg"
  by (simp add: speedGain_def)

lemma submap_refl: "submap p p"
  by (simp add: submap_def)

lemma submap_trans: "submap a b \<Longrightarrow> submap b c \<Longrightarrow> submap a c"
  by (simp add: submap_def)

lemma submap_fmdrop: "submap (fmdrop n p) p"
  by (simp add: submap_def)

lemma submap_launchOnly: "submap (launchOnly p) p"
  by (auto simp: submap_def fmlookup_launchOnly split: option.splits if_splits)

lemma submap_dom: "submap q p \<Longrightarrow> fmdom' q \<subseteq> fmdom' p"
  by (auto simp: submap_def fmlookup_dom'_iff)

lemma pendingGain_submap:
  assumes "submap q p"
  shows "pendingGain q \<le> pendingGain p"
proof -
  have "pendingGain q = (\<Sum>n \<in> fmdom' q. speedGain (the (fmlookup p n)))"
    unfolding pendingGain_def
    using assms by (intro sum.cong) (auto simp: submap_def fmlookup_dom'_iff)
  also have "\<dots> \<le> (\<Sum>n \<in> fmdom' p. speedGain (the (fmlookup p n)))"
    by (intro sum_mono2 submap_dom [OF assms]) (simp_all add: speedGain_nonneg)
  finally show ?thesis
    by (simp add: pendingGain_def)
qed

lemma pendingGain_fmdrop:
  assumes "fmlookup p n = Some msg"
  shows "pendingGain (fmdrop n p) + speedGain msg = pendingGain p"
proof -
  have n: "n \<in> fmdom' p"
    using assms by (rule fmdom'I)
  have "pendingGain p =
          speedGain (the (fmlookup p n)) + (\<Sum>k \<in> fmdom' p - {n}. speedGain (the (fmlookup p k)))"
    unfolding pendingGain_def by (rule sum.remove [OF _ n]) simp
  moreover have "pendingGain (fmdrop n p) = (\<Sum>k \<in> fmdom' p - {n}. speedGain (the (fmlookup p k)))"
    unfolding pendingGain_def by (rule sum.cong) simp_all
  ultimately show ?thesis
    using assms by simp
qed

lemma pendingGain_removed:
  assumes "fmlookup p n = Some msg" and "submap q p" and "fmlookup q n = None"
  shows "pendingGain q + speedGain msg \<le> pendingGain p"
proof -
  have "submap q (fmdrop n p)"
    using assms(2,3) by (auto simp: submap_def)
  then have "pendingGain q \<le> pendingGain (fmdrop n p)"
    by (rule pendingGain_submap)
  then show ?thesis
    using pendingGain_fmdrop [OF assms(1)] by simp
qed

lemma pendingGain_fmupd: "pendingGain (fmupd n msg p) \<le> pendingGain p + speedGain msg"
proof -
  have "pendingGain (fmdrop n (fmupd n msg p)) + speedGain msg = pendingGain (fmupd n msg p)"
    by (rule pendingGain_fmdrop) simp
  moreover have "pendingGain (fmdrop n (fmupd n msg p)) \<le> pendingGain p"
    by (rule pendingGain_submap) (simp add: submap_def)
  ultimately show ?thesis
    by simp
qed

lemma pendingGain_nonneg: "0 \<le> pendingGain p"
  unfolding pendingGain_def by (rule sum_nonneg) (simp add: speedGain_nonneg)

lemma pendingGain_member:
  assumes "fmlookup p n = Some msg"
  shows "speedGain msg \<le> pendingGain p"
  using pendingGain_fmdrop [OF assms] pendingGain_nonneg [of "fmdrop n p"] by simp

lemma processMessageByType_speed:
  assumes res: "processMessageByType r rocket msg = (True, rocket', r')"
    and s: "0 \<le> Speed rocket" and ok: "speedFieldsOK msg"
    and bound: "Speed rocket + speedGain msg < 2 ^ 63"
  shows "0 \<le> Speed rocket'" "Speed rocket' \<le> Speed rocket + speedGain msg"
proof -
  have g: "0 \<le> speedGain msg"
    by (rule speedGain_nonneg)
  have up: "wrap64 (Speed rocket + Message_By msg) = Speed rocket + Message_By msg"
    if "MessageType msg = MessageTypeRocketSpeedIncreased" "0 < Message_By msg"
      "MessageType msg \<noteq> MessageTypeRocketLaunched"
    using that s bound by (intro wrap64_id) (simp add: int64_def speedGain_def)
  have down: "wrap64 (Speed rocket - Message_By msg) = Speed rocket - Message_By msg"
    if "0 < Message_By msg"
    using that s bound g ok by (intro wrap64_id) (simp add: int64_def speedFieldsOK_def)
  have both: "0 \<le> Speed rocket' \<and> Speed rocket' \<le> Speed rocket + speedGain msg"
    using res s ok g up down
    by (auto simp: processMessageByType_def Let_def speedFieldsOK_def speedGain_def
        split: if_splits)
  then show "0 \<le> Speed rocket'" "Speed rocket' \<le> Speed rocket + speedGain msg"
    by simp_all
qed

lemma pendingOK_submap:
  "pendingOK T s p \<Longrightarrow> submap q p \<Longrightarrow> pendingOK T s q"
  using pendingGain_submap [of q p] by (auto simp: pendingOK_def submap_def)

lemma pendingOK_mono: "pendingOK T s p \<Longrightarrow> T \<le> T' \<Longrightarrow> pendingOK T' s p"
  by (auto simp: pendingOK_def)

lemma pendingOK_fmupd:
  "pendingOK T s p \<Longrightarrow> speedFieldsOK msg \<Longrightarrow> pendingOK (T + speedGain msg) s (fmupd n msg p)"
  using pendingGain_fmupd [of n msg p] by (auto simp: pendingOK_def)

lemma submap_processMessageByType:
  assumes "processMessageByType r rocket msg = (ok, rocket', r')"
  shows "submap (pendingFor r' c) (pendingFor r c)"
  using processMessageByType_repo [OF assms]
  by (auto simp: submap_refl submap_launchOnly)

lemma pendingOK_drained:
  assumes inv: "pendingOK T (Speed rocket) p" and T: "T < 2 ^ 63"
    and found: "fmlookup p n = Some msg"
    and res: "processMessageByType r rocket msg = (True, rocket', r')"
    and q: "submap q p" "fmlookup q n = None"
  shows "pendingOK T (Speed (rocket'\<lparr>LastProcessedMessageNumber := l, UpdatedAt := t\<rparr>)) q"
proof -
  have s: "0 \<le> Speed rocket" and sum: "Speed rocket + pendingGain p \<le> T"
    and ok: "speedFieldsOK msg"
    using inv found by (auto simp: pendingOK_def)
  have "speedGain msg \<le> pendingGain p"
    by (rule pendingGain_member [OF found])
  then have "Speed rocket + speedGain msg < 2 ^ 63"
    using sum T by simp
  from processMessageByType_speed [OF res s ok this]
  have s': "0 \<le> Speed rocket'" "Speed rocket' \<le> Speed rocket + speedGain msg" .
  have "pendingGain q + speedGain msg \<le> pendingGain p"
    by (rule pendingGain_removed [OF found q])
  then have "Speed rocket' + pendingGain q \<le> T"
    using s'(2) sum by simp
  moreover have "\<forall>k m. fmlookup q k = Some m \<longrightarrow> speedFieldsOK m"
    using inv q(1) by (auto simp: pendingOK_def submap_def)
  ultimately show ?thesis
    using s'(1) by (simp add: pendingOK_def)
qed

lemma pendingOK_applied:
  assumes inv: "pendingOK T (Speed rocket) p" and T: "T + speedGain msg < 2 ^ 63"
    and ok: "speedFieldsOK msg"
    and res: "processMessageByType r rocket msg = (True, rocket', r')"
    and q: "submap q p"
  shows "pendingOK (T + speedGain msg)
           (Speed (rocket'\<lparr>LastProcessedMessageNumber := l, UpdatedAt := t\<rparr>)) q"
proof -
  have s: "0 \<le> Speed rocket" and sum: "Speed rocket + pendingGain p \<le> T"
    using inv by (auto simp: pendingOK_def)
  have "0 \<le> pendingGain p"
    by (rule pendingGain_nonneg)
  then have "Speed rocket + speedGain msg < 2 ^ 63"
    using sum T by simp
  from processMessageByType_speed [OF res s ok this]
  have s': "0 \<le> Speed rocket'" "Speed rocket' \<le> Speed rocket + speedGain msg" .
  have "pendingGain q \<le> pendingGain p"
    by (rule pendingGain_submap [OF q])
  then have "Speed rocket' + pendingGain q \<le> T + speedGain msg"
    using s'(2) sum by simp
  moreover have "\<forall>k m. fmlookup q k = Some m \<longrightarrow> speedFieldsOK m"
    using inv q by (auto simp: pendingOK_def submap_def)
  ultimately show ?thesis
    using s'(1) by (simp add: pendingOK_def)
qed

lemma loopSpeed_deletePending:
  assumes "loopSpeed T c r0 rocket r"
  shows "loopSpeed T c r0 rocket (deletePending r c n)"
proof -
  have sub: "submap (pendingFor (deletePending r c n) c') (pendingFor r c')" for c'
    by (simp add: submap_refl submap_fmdrop)
  have "pendingOK T (Speed rocket) (pendingFor (deletePending r c n) c)"
    using assms sub [of c] by (auto simp: loopSpeed_def intro: pendingOK_submap)
  moreover have "submap (pendingFor (deletePending r c n) c') (pendingFor r0 c')" for c'
    using assms sub [of c'] unfolding loopSpeed_def by (blast intro: submap_trans)
  ultimately show ?thesis
    using assms by (simp add: loopSpeed_def)
qed

lemma loop_speed:
  assumes "loopSpeed T c r0 rocket r" and "T < 2 ^ 63"
  shows "case processPendingLoop c rocket r of (rocket', r') \<Rightarrow> loopSpeed T c r0 rocket' r'"
proof (rule loop_rule [where P = "loopSpeed T c r0" and Q = "loopSpeed T c r0"])
  show "loopSpeed T c r0 rocket r"
    by (rule assms(1))
next
  fix rocket1 r1
  assume "loopSpeed T c r0 rocket1 r1"
  then show "loopSpeed T c r0 rocket1 r1" .
next
  fix rocket1 r1 msg
  assume "loopSpeed T c r0 rocket1 r1"
  then show "loopSpeed T c r0 rocket1
               (deletePending r1 c (wrap64 (LastProcessedMessageNumber rocket1 + 1)))"
    by (rule loopSpeed_deletePending)
next
  fix rocket1 :: RocketState and r1 msg rocket' r'
  let ?n = "wrap64 (LastProcessedMessageNumber rocket1 + 1)"
  let ?r2 = "deletePending (setProcessed r' c ?n) c ?n"
  assume P: "loopSpeed T c r0 rocket1 r1"
    and found: "fmlookup (pendingFor r1 c) ?n = Some msg"
    and res: "processMessageByType r1 rocket1 msg = (True, rocket', r')"
  have sub: "submap (pendingFor r' c') (pendingFor r1 c')" for c'
    by (rule submap_processMessageByType [OF res])
  have sub2: "submap (pendingFor ?r2 c') (pendingFor r1 c')" for c'
    using sub [of c'] by (auto intro: submap_trans [OF submap_fmdrop])
  have gone: "fmlookup (pendingFor ?r2 c) ?n = None"
    by simp
  have inv: "pendingOK T (Speed rocket1) (pendingFor r1 c)"
    using P by (simp add: loopSpeed_def)
  have "pendingOK T
          (Speed (rocket'\<lparr>LastProcessedMessageNumber := ?n, UpdatedAt := MessageTime msg\<rparr>))
          (pendingFor ?r2 c)"
    by (rule pendingOK_drained [OF inv assms(2) found res sub2 gone])
  moreover have "rockets ?r2 = rockets r0"
    using P processMessageByType_maps(1) [OF res] by (simp add: loopSpeed_def)
  moreover have "submap (pendingFor ?r2 c') (pendingFor r0 c')" for c'
    using sub2 [of c'] P by (auto simp: loopSpeed_def intro: submap_trans)
  ultimately show "loopSpeed T c r0
      (rocket'\<lparr>LastProcessedMessageNumber := ?n, UpdatedAt := MessageTime msg\<rparr>) ?r2"
    unfolding loopSpeed_def by blast
next
  fix rocket1 r1 msg
  assume "loopSpeed T c r0 rocket1 r1"
  then show "loopSpeed T c r0 rocket1
               (deletePending r1 c (wrap64 (LastProcessedMessageNumber rocket1 + 1)))"
    by (rule loopSpeed_deletePending)
qed

lemma speedInv_mono: "speedInv T r \<Longrightarrow> T \<le> T' \<Longrightarrow> speedInv T' r"
  by (auto simp: speedInv_def speedOK_def intro: pendingOK_mono)

lemma speedOK_same:
  assumes "speedOK T c r" and "fmlookup (rockets r') c = fmlookup (rockets r) c"
    and "submap (pendingFor r' c) (pendingFor r c)" and "T \<le> T'"
  shows "speedOK T' c r'"
  using assms unfolding speedOK_def by (auto intro: pendingOK_mono pendingOK_submap)

lemma speedInv_rocket:
  assumes "speedInv T r" and "fmlookup (rockets r) c = Some rocket"
  shows "pendingOK T (Speed rocket) (pendingFor r c)"
proof -
  have "speedOK T c r"
    using assms(1) by (simp add: speedInv_def)
  then show ?thesis
    by (simp add: speedOK_def assms(2))
qed

lemma speedInv_no_rocket:
  assumes "speedInv T r" and "fmlookup (rockets r) c = None"
  shows "pendingOK T 0 (pendingFor r c)"
proof -
  have "speedOK T c r"
    using assms(1) by (simp add: speedInv_def)
  then show ?thesis
    by (simp add: speedOK_def assms(2))
qed

lemma processPendingMessages_speed:
  assumes "fmlookup (rockets r) c = Some rocket"
    and "pendingOK T (Speed rocket) (pendingFor r c)" and "T < 2 ^ 63"
  obtains rocket' r' where "processPendingMessages r c = storeRocket r' c rocket'"
    and "loopSpeed T c r rocket' r'"
proof -
  obtain rocket' r' where l: "processPendingLoop c rocket r = (rocket', r')"
    by (cases "processPendingLoop c rocket r") auto
  have "loopSpeed T c r rocket r"
    using assms(2) by (simp add: loopSpeed_def submap_refl)
  from loop_speed [OF this assms(3)] l have "loopSpeed T c r rocket' r'"
    by simp
  moreover have "processPendingMessages r c = storeRocket r' c rocket'"
    using assms(1) l by (simp add: processPendingMessages_def)
  ultimately show thesis
    using that by blast
qed

lemma processInSequence_speed:
  assumes rk: "fmlookup (rockets r) (Channel msg) = Some rocket"
    and inv: "speedInv T r" and ok: "speedFieldsOK msg" and T: "T + speedGain msg < 2 ^ 63"
  shows "speedInv (T + speedGain msg) (snd (processInSequence r rocket msg))"
proof -
  let ?c = "Channel msg" and ?n = "MessageNumber msg"
  let ?e = "wrap64 (LastProcessedMessageNumber rocket + 1)"
  let ?T = "T + speedGain msg"
  have le: "T \<le> ?T"
    using speedGain_nonneg [of msg] by simp
  have here: "pendingOK T (Speed rocket) (pendingFor r ?c)"
    by (rule speedInv_rocket [OF inv rk])
  consider (now) "?n = ?e" | (later) "?e < ?n" | (old) "?n \<noteq> ?e" "\<not> ?e < ?n"
    by fastforce
  then show ?thesis
  proof cases
    case now
    obtain b rocket' r' where res: "processMessageByType r rocket msg = (b, rocket', r')"
      by (cases "processMessageByType r rocket msg") auto
    show ?thesis
    proof (cases b)
      case True
      with res have res': "processMessageByType r rocket msg = (True, rocket', r')"
        by simp
      let ?rocket2 = "rocket'\<lparr>LastProcessedMessageNumber := ?n, UpdatedAt := MessageTime msg\<rparr>"
      let ?r2 = "storeRocket (setProcessed r' ?c ?n) ?c ?rocket2"
      have seq: "processInSequence r rocket msg = (True, processPendingMessages ?r2 ?c)"
        by (rule processInSequence_applied [OF now res'])
      have sub: "submap (pendingFor ?r2 c') (pendingFor r c')" for c'
        using submap_processMessageByType [OF res', of c'] by simp
      have p2: "pendingOK ?T (Speed ?rocket2) (pendingFor ?r2 ?c)"
        by (rule pendingOK_applied [OF here T ok res' sub])
      have "fmlookup (rockets ?r2) ?c = Some ?rocket2"
        by simp
      then obtain rocket3 r3 where fin: "processPendingMessages ?r2 ?c = storeRocket r3 ?c rocket3"
        and l: "loopSpeed ?T ?c ?r2 rocket3 r3"
        using p2 T by (rule processPendingMessages_speed)
      have "speedOK ?T c' (storeRocket r3 ?c rocket3)" for c'
      proof (cases "c' = ?c")
        case True
        then show ?thesis
          using l by (simp add: speedOK_def loopSpeed_def)
      next
        case False
        have a: "fmlookup (rockets (storeRocket r3 ?c rocket3)) c' = fmlookup (rockets r) c'"
          using False l processMessageByType_maps(1) [OF res'] by (simp add: loopSpeed_def)
        have "submap (pendingFor r3 c') (pendingFor ?r2 c')"
          using l unfolding loopSpeed_def by blast
        then have b: "submap (pendingFor (storeRocket r3 ?c rocket3) c') (pendingFor r c')"
          using submap_trans [OF _ sub [of c']] by simp
        have "speedOK T c' r"
          using inv by (simp add: speedInv_def)
        then show ?thesis
          using a b le by (rule speedOK_same)
      qed
      then show ?thesis
        by (simp add: seq fin speedInv_def)
    next
      case False
      with res have "processMessageByType r rocket msg = (False, rocket', r')"
        by simp
      then have "processInSequence r rocket msg = (False, r)"
        by (rule processInSequence_rejected [OF now _ rk])
      then show ?thesis
        using speedInv_mono [OF inv le] by simp
    qed
  next
    case later
    have "speedOK ?T c' (setPending r ?c ?n msg)" for c'
    proof (cases "c' = ?c")
      case True
      then show ?thesis
        using pendingOK_fmupd [OF here ok] rk by (simp add: speedOK_def)
    next
      case False
      have "speedOK T c' r"
        using inv by (simp add: speedInv_def)
      then show ?thesis
        by (rule speedOK_same) (use False le in \<open>simp_all add: submap_refl\<close>)
    qed
    then show ?thesis
      by (simp add: processInSequence_later [OF later] speedInv_def)
  next
    case old
    then have "processInSequence r rocket msg = (False, r)"
      by (simp add: processInSequence_def Let_def)
    then show ?thesis
      using speedInv_mono [OF inv le] by simp
  qed
qed

lemma ProcessMessage_speed:
  assumes inv: "speedInv T r" and ok: "speedFieldsOK msg" and T: "T + speedGain msg < 2 ^ 63"
  shows "speedInv (T + speedGain msg) (snd (ProcessMessage r msg))"
proof -
  let ?c = "Channel msg" and ?n = "MessageNumber msg"
  let ?r1 = "initMaps r ?c"
  let ?T = "T + speedGain msg"
  have le: "T \<le> ?T"
    using speedGain_nonneg [of msg] by simp
  have inv1: "speedInv T ?r1"
    using inv by (simp add: speedInv_def speedOK_def)
  show ?thesis
  proof (cases "isProcessed ?r1 ?c ?n")
    case True
    then have "snd (ProcessMessage r msg) = ?r1"
      by (simp add: ProcessMessage_def Let_def)
    then show ?thesis
      using speedInv_mono [OF inv1 le] by simp
  next
    case False
    show ?thesis
    proof (cases "fmlookup (rockets r) ?c")
      case None
      show ?thesis
      proof (cases "MessageType msg \<noteq> MessageTypeRocketLaunched")
        case True
        then have out: "snd (ProcessMessage r msg) = setPending ?r1 ?c ?n msg"
          using False None by (simp add: ProcessMessage_def Let_def)
        have here: "pendingOK T 0 (pendingFor ?r1 ?c)"
          using None by (intro speedInv_no_rocket [OF inv1]) simp
        have "speedOK ?T c' (setPending ?r1 ?c ?n msg)" for c'
        proof (cases "c' = ?c")
          case True
          then show ?thesis
            using pendingOK_fmupd [OF here ok] None by (simp add: speedOK_def)
        next
          case other: False
          have "speedOK T c' ?r1"
            using inv1 by (simp add: speedInv_def)
          then show ?thesis
            by (rule speedOK_same) (use other le in \<open>simp_all add: submap_refl\<close>)
        qed
        then show ?thesis
          by (simp add: out speedInv_def)
      next
        case launch: False
        let ?r2 = "storeRocket ?r1 ?c (newRocketState ?c)"
        have out: "snd (ProcessMessage r msg) = snd (processInSequence ?r2 (newRocketState ?c) msg)"
          using False None launch by (simp add: ProcessMessage_def Let_def)
        have "speedOK T c' ?r2" for c'
        proof (cases "c' = ?c")
          case True
          have "pendingOK T 0 (pendingFor ?r1 ?c)"
            using None by (intro speedInv_no_rocket [OF inv1]) simp
          then show ?thesis
            using True by (simp add: speedOK_def newRocketState_def)
        next
          case other: False
          have "speedOK T c' ?r1"
            using inv1 by (simp add: speedInv_def)
          then show ?thesis
            by (rule speedOK_same) (use other in \<open>simp_all add: submap_refl\<close>)
        qed
        then have inv2: "speedInv T ?r2"
          by (simp add: speedInv_def)
        have "fmlookup (rockets ?r2) ?c = Some (newRocketState ?c)"
          by simp
        from processInSequence_speed [OF this inv2 ok T]
        show ?thesis
          by (simp add: out)
      qed
    next
      case (Some rocket)
      then have out: "snd (ProcessMessage r msg) = snd (processInSequence ?r1 rocket msg)"
        using False by (simp add: ProcessMessage_def Let_def)
      have "fmlookup (rockets ?r1) ?c = Some rocket"
        using Some by simp
      from processInSequence_speed [OF this inv1 ok T]
      show ?thesis
        by (simp add: out)
    qed
  qed
qed

lemma ProcessAll_speed:
  "speedInv T r \<Longrightarrow> \<forall>msg \<in> set msgs. speedFieldsOK msg \<Longrightarrow>
     T + sum_list (map speedGain msgs) < 2 ^ 63 \<Longrightarrow>
     speedInv (T + sum_list (map speedGain msgs)) (ProcessAll r msgs)"
proof (induction msgs arbitrary: T r)
  case Nil
  then show ?case by simp
next
  case (Cons m msgs)
  have rest: "0 \<le> sum_list (map speedGain msgs)"
    by (rule sum_list_nonneg) (auto simp: speedGain_nonneg)
  then have "T + speedGain m < 2 ^ 63"
    using Cons.prems(3) by simp
  then have step: "speedInv (T + speedGain m) (snd (ProcessMessage r m))"
    using Cons.prems(1,2) by (intro ProcessMessage_speed) simp_all
  have "speedInv (T + speedGain m + sum_list (map speedGain msgs))
          (ProcessAll (snd (ProcessMessage r m)) msgs)"
    using Cons.prems(2,3) by (intro Cons.IH [OF step]) (simp_all add: add.assoc)
  then show ?case
    by (simp add: add.assoc)
qed

lemma speedInv_New: "speedInv 0 NewRocketRepository"
  by (simp add: speedInv_def speedOK_def pendingOK_def NewRocketRepository_def pendingFor_def
      pendingGain_def)

lemma speedDecreased_floor:
  assumes "\<not> Exploded rocket" and "MessageType msg = MessageTypeRocketSpeedDecreased"
    and "0 \<le> Speed rocket" and "Speed rocket < 2 ^ 63"
    and "Speed rocket < Message_By msg" and "int64 (Message_By msg)"
  shows "processMessageByType r rocket msg = (True, rocket\<lparr>Speed := 0\<rparr>, r)"
proof -
  have "int64 (Speed rocket - Message_By msg)"
    using assms(3-6) by (simp add: int64_def)
  then have "wrap64 (Speed rocket - Message_By msg) = Speed rocket - Message_By msg"
    by (rule wrap64_id)
  then show ?thesis
    using assms
    by (simp add: processMessageByType_def Let_def MessageTypeRocketSpeedDecreased_def
        MessageTypeRocketLaunched_def MessageTypeRocketSpeedIncreased_def)
qed

lemma processMessageByType_pure:
  assumes "\<not> Exploded rocket \<or> MessageType msg = MessageTypeRocketLaunched"
  shows "processMessageByType r rocket msg =
           (payloadOK msg, transition rocket msg,
            if payloadOK msg \<and> MessageType msg = MessageTypeRocketExploded
            then clearPendingExceptLaunch r (ID rocket) else r)"
  using assms
  by (auto simp: processMessageByType_def transition_def payloadOK_def newRocketState_def Let_def
      MessageTypeRocketLaunched_def MessageTypeRocketSpeedIncreased_def
      MessageTypeRocketSpeedDecreased_def MessageTypeRocketExploded_def
      MessageTypeRocketMissionChanged_def)

lemma transition_exploded:
  "Exploded (transition rocket msg) \<Longrightarrow>
     Exploded rocket \<or> MessageType msg = MessageTypeRocketExploded"
  by (auto simp: processMessageByType_def transition_def Let_def split: if_splits)

lemma applied_simps [simp]:
  "LastProcessedMessageNumber (applied rocket msg) = MessageNumber msg"
  by (simp add: applied_def)

lemma applied_exploded:
  "Exploded (applied rocket msg) \<Longrightarrow>
     Exploded rocket \<or> MessageType msg = MessageTypeRocketExploded"
  using transition_exploded [of rocket msg] by (simp add: applied_def)

lemma applied_ID: "ID (applied rocket msg) = ID rocket"
  using processMessageByType_keeps [of NewRocketRepository rocket msg]
  by (cases "processMessageByType NewRocketRepository rocket msg")
    (simp add: applied_def transition_def)

lemma family_msg:
  assumes "family c F" and "fmlookup F n = Some msg"
  shows "MessageNumber msg = n" "Channel msg = c" "0 < n" "n < 2 ^ 63"
  using assms unfolding family_def by blast+

lemma family_first:
  assumes "family c F" and "fmlookup F 1 = Some msg"
  shows "MessageType msg = MessageTypeRocketLaunched"
  using assms unfolding family_def by blast

lemma family_swept:
  assumes "family c F" and "fmlookup F e = Some msg"
    and "MessageType msg = MessageTypeRocketExploded"
    and "\<forall>i. 1 \<le> i \<and> i \<le> e \<longrightarrow> fmlookup F i \<noteq> None"
    and "e < n" and "fmlookup F n = Some m"
  shows "MessageType m = MessageTypeRocketLaunched"
proof -
  have "\<forall>e msg n m.
        fmlookup F e = Some msg \<and> MessageType msg = MessageTypeRocketExploded \<and>
        (\<forall>i. 1 \<le> i \<and> i \<le> e \<longrightarrow> fmlookup F i \<noteq> None) \<and>
        e < n \<and> fmlookup F n = Some m \<longrightarrow>
        MessageType m = MessageTypeRocketLaunched"
    using assms(1) by (simp add: family_def)
  then show ?thesis
    using assms(2-6) by blast
qed

lemma replay_ID: "ID (replay F c j) = c"
  by (induction j) (simp_all add: newRocketState_def applied_ID split: option.splits)

lemma replay_exploded:
  "Exploded (replay F c j) \<Longrightarrow>
     \<exists>e msg. 1 \<le> e \<and> e \<le> int j \<and> fmlookup F e = Some msg \<and>
             MessageType msg = MessageTypeRocketExploded"
proof (induction j)
  case 0
  then show ?case by (simp add: newRocketState_def)
next
  case (Suc j)
  show ?case
  proof (cases "fmlookup F (int (Suc j))")
    case None
    then have "Exploded (replay F c j)"
      using Suc.prems by simp
    then obtain e msg where "1 \<le> e" "e \<le> int j" "fmlookup F e = Some msg"
      "MessageType msg = MessageTypeRocketExploded"
      using Suc.IH by blast
    then show ?thesis
      by (intro exI [of _ e] exI [of _ msg]) simp
  next
    case (Some msg)
    then have "Exploded (applied (replay F c j) msg)"
      using Suc.prems by simp
    then consider "Exploded (replay F c j)" | "MessageType msg = MessageTypeRocketExploded"
      using applied_exploded by blast
    then show ?thesis
    proof cases
      case 1
      then obtain e msg' where "1 \<le> e" "e \<le> int j" "fmlookup F e = Some msg'"
        "MessageType msg' = MessageTypeRocketExploded"
        using Suc.IH by blast
      then show ?thesis
        by (intro exI [of _ e] exI [of _ msg']) simp
    next
      case 2
      then show ?thesis
        using Some by (intro exI [of _ "int (Suc j)"] exI [of _ msg]) simp
    qed
  qed
qed

lemma gate_open:
  assumes fam: "family c F" and j: "0 \<le> j"
    and pre: "\<forall>i. 1 \<le> i \<and> i \<le> j + 1 \<longrightarrow> fmlookup F i \<noteq> None"
    and msg: "fmlookup F (j + 1) = Some msg"
  shows "\<not> Exploded (replay F c (nat j)) \<or> MessageType msg = MessageTypeRocketLaunched"
proof (cases "Exploded (replay F c (nat j))")
  case True
  then obtain e m where e: "1 \<le> e" "e \<le> int (nat j)" "fmlookup F e = Some m"
    "MessageType m = MessageTypeRocketExploded"
    using replay_exploded by blast
  have ej: "e \<le> j"
    using e(2) j by simp
  have "\<forall>i. 1 \<le> i \<and> i \<le> e \<longrightarrow> fmlookup F i \<noteq> None"
    using pre ej by simp
  moreover have "e < j + 1"
    using ej by simp
  ultimately have "MessageType msg = MessageTypeRocketLaunched"
    using family_swept [OF fam e(3,4) _ _ msg] by blast
  then show ?thesis ..
next
  case False
  then show ?thesis ..
qed

lemma isCursor_unique:
  assumes "isCursor F k" and "isCursor F k'"
  shows "k = k'"
proof (rule ccontr)
  assume "k \<noteq> k'"
  then consider "k < k'" | "k' < k"
    by linarith
  then show False
  proof cases
    case 1
    then have "1 \<le> k + 1 \<and> k + 1 \<le> k'"
      using assms(1) by (simp add: isCursor_def)
    then have "fmlookup F (k + 1) \<noteq> None"
      using assms(2) unfolding isCursor_def by blast
    then show False
      using assms(1) by (simp add: isCursor_def)
  next
    case 2
    then have "1 \<le> k' + 1 \<and> k' + 1 \<le> k"
      using assms(2) by (simp add: isCursor_def)
    then have "fmlookup F (k' + 1) \<noteq> None"
      using assms(1) unfolding isCursor_def by blast
    then show False
      using assms(2) by (simp add: isCursor_def)
  qed
qed

lemma Rep_unique:
  assumes "Rep r0 c F k r" and "Rep r0 c F k r'"
  shows "r = r'"
proof (rule RocketRepository.equality)
  show "rockets r = rockets r'"
  proof (rule fmap_ext)
    fix x show "fmlookup (rockets r) x = fmlookup (rockets r') x"
      using assms by (cases "x = c") (simp_all add: Rep_def)
  qed
  have inner: "p = p'" if "\<forall>n. fmlookup p n = fmlookup p' n" for p p' :: "(int, 'v) fmap"
    using that by (intro fmap_ext) simp
  show "processedMessages r = processedMessages r'"
  proof (rule fmap_ext)
    fix x show "fmlookup (processedMessages r) x = fmlookup (processedMessages r') x"
    proof (cases "x = c")
      case True
      have "processedFor r c = processedFor r' c"
        using assms by (intro fmap_ext) (simp add: Rep_def)
      moreover have "(fmlookup (processedMessages r) c = None) =
                     (fmlookup (processedMessages r') c = None)"
        using assms by (simp add: Rep_def)
      ultimately show ?thesis
        using True by (auto simp: processedFor_def split: option.splits)
    next
      case False
      then show ?thesis
        using assms by (simp add: Rep_def)
    qed
  qed
  show "pendingMessages r = pendingMessages r'"
  proof (rule fmap_ext)
    fix x show "fmlookup (pendingMessages r) x = fmlookup (pendingMessages r') x"
    proof (cases "x = c")
      case True
      have "pendingFor r c = pendingFor r' c"
        using assms by (intro fmap_ext) (simp add: Rep_def)
      moreover have "(fmlookup (pendingMessages r) c = None) =
                     (fmlookup (pendingMessages r') c = None)"
        using assms by (simp add: Rep_def)
      ultimately show ?thesis
        using True by (auto simp: pendingFor_def split: option.splits)
    next
      case False
      then show ?thesis
        using assms by (simp add: Rep_def)
    qed
  qed
qed simp

lemma onlyChan_refl: "onlyChan c r r"
  by (simp add: onlyChan_def)

lemma onlyChan_trans: "onlyChan c r r' \<Longrightarrow> onlyChan c r' r'' \<Longrightarrow> onlyChan c r r''"
  by (simp add: onlyChan_def)

lemma onlyChan_sweep:
  "onlyChan c r (if b then clearPendingExceptLaunch r c else r)"
  by (auto simp: onlyChan_def)

lemma onlyChan_step:
  "fmlookup (processedMessages r) c \<noteq> None \<Longrightarrow>
     onlyChan c r (deletePending (setProcessed r c n) c n)"
  by (auto simp: onlyChan_def)

lemma sweep_above:
  assumes fam: "family c F" and msg: "fmlookup F e = Some msg"
    and pre: "\<forall>i. 1 \<le> i \<and> i \<le> e \<longrightarrow> fmlookup F i \<noteq> None"
    and above: "\<forall>n. e < n \<longrightarrow> fmlookup (pendingFor r c) n = fmlookup F n"
  shows "\<forall>n. e < n \<longrightarrow>
           fmlookup
             (pendingFor
                (if b \<and> MessageType msg = MessageTypeRocketExploded
                 then clearPendingExceptLaunch r c else r) c) n = fmlookup F n"
proof (intro allI impI)
  fix n
  assume n: "e < n"
  show "fmlookup
          (pendingFor
             (if b \<and> MessageType msg = MessageTypeRocketExploded
              then clearPendingExceptLaunch r c else r) c) n = fmlookup F n"
  proof (cases "b \<and> MessageType msg = MessageTypeRocketExploded")
    case True
    have keep: "MessageType m = MessageTypeRocketLaunched" if "fmlookup F n = Some m" for m
      using family_swept [OF fam msg _ pre n that] True by simp
    have "fmlookup (launchOnly (pendingFor r c)) n = fmlookup F n"
      using above n keep by (simp add: fmlookup_launchOnly split: option.splits)
    then show ?thesis
      using True by simp
  next
    case False
    then show ?thesis
      using above n by auto
  qed
qed

lemma sweep_none:
  "fmlookup (pendingFor r c) n = None \<Longrightarrow>
     fmlookup (pendingFor (if b then clearPendingExceptLaunch r c else r) c) n = None"
  by (simp add: fmlookup_launchOnly)

lemma sweep_processed:
  "processedFor (if b then clearPendingExceptLaunch r c else r) c' = processedFor r c'"
  by simp

lemma replay_Suc:
  assumes "0 \<le> j" and "fmlookup F (j + 1) = Some msg"
  shows "replay F c (nat (j + 1)) = applied (replay F c (nat j)) msg"
proof -
  have "nat (j + 1) = Suc (nat j)"
    using assms(1) by simp
  moreover have "int (Suc (nat j)) = j + 1"
    using assms(1) by simp
  ultimately show ?thesis
    using assms(2) by (simp add: add.commute)
qed

lemma wrap64_next:
  assumes "0 \<le> j" and "j + 1 < 2 ^ 63"
  shows "wrap64 (j + 1) = j + 1"
  using assms by (intro wrap64_id) (simp add: int64_def)

lemma wrap64_last:
  assumes "0 \<le> k" and "k < 2 ^ 63" and "\<not> k + 1 < 2 ^ 63"
  shows "wrap64 (k + 1) < 0"
proof -
  have "k = 2 ^ 63 - 1"
    using assms by simp
  then show ?thesis
    by (simp add: wrap64_def)
qed

lemma cursor_bound:
  assumes "family c F" and "0 \<le> k" and "\<forall>i. 1 \<le> i \<and> i \<le> k \<longrightarrow> fmlookup F i \<noteq> None"
  shows "k < 2 ^ 63"
proof (cases "k = 0")
  case True
  then show ?thesis by simp
next
  case False
  then have "fmlookup F k \<noteq> None"
    using assms(2,3) by simp
  then obtain msg where "fmlookup F k = Some msg"
    by auto
  then show ?thesis
    using family_msg(4) [OF assms(1)] by blast
qed

lemma drain_prefix:
  assumes fam: "family c F" and acc: "accOK F k'"
    and pre: "\<forall>i. 1 \<le> i \<and> i \<le> k' \<longrightarrow> fmlookup F i \<noteq> None"
    and stop: "fmlookup F (k' + 1) = None"
  shows "0 \<le> j \<Longrightarrow> j \<le> k' \<Longrightarrow> d = nat (k' - j) \<Longrightarrow>
     LastProcessedMessageNumber (replay F c (nat j)) = j \<Longrightarrow>
     fmlookup (processedMessages r) c \<noteq> None \<Longrightarrow>
     \<forall>n. fmlookup (pendingFor r c) n = (if j < n then fmlookup F n else None) \<Longrightarrow>
     \<exists>r'. processPendingLoop c (replay F c (nat j)) r = (replay F c (nat k'), r') \<and>
          onlyChan c r r' \<and>
          (\<forall>n. fmlookup (pendingFor r' c) n = (if k' < n then fmlookup F n else None)) \<and>
          (\<forall>n. fmlookup (processedFor r' c) n =
                 (if j < n \<and> n \<le> k' then Some True else fmlookup (processedFor r c) n))"
proof (induction d arbitrary: j r)
  case 0
  then have jk: "j = k'"
    by simp
  have top: "k' < 2 ^ 63"
    using cursor_bound [OF fam] "0.prems"(1) pre jk by blast
  have "fmlookup (pendingFor r c) (wrap64 (k' + 1)) = None"
  proof (cases "k' + 1 < 2 ^ 63")
    case True
    then have "wrap64 (k' + 1) = k' + 1"
      using "0.prems"(1) jk by (intro wrap64_next) simp_all
    then show ?thesis
      using "0.prems"(6) stop by simp
  next
    case False
    then have "wrap64 (k' + 1) < 0"
      using "0.prems"(1) jk top by (intro wrap64_last) simp_all
    then show ?thesis
      using "0.prems"(1,6) jk by simp
  qed
  then have "processPendingLoop c (replay F c (nat j)) r = (replay F c (nat j), r)"
    using "0.prems"(4) jk by (intro loop_none) simp
  then show ?case
    using jk "0.prems"(6) by (auto simp: onlyChan_refl)
next
  case (Suc d)
  let ?rocket = "replay F c (nat j)"
  let ?n = "j + 1"
  have lt: "j < k'"
    using Suc.prems(3) by simp
  then have "fmlookup F ?n \<noteq> None"
    using pre Suc.prems(1) by simp
  then obtain msg where msg: "fmlookup F ?n = Some msg"
    by auto
  note m = family_msg [OF fam msg]
  have pre_n: "\<forall>i. 1 \<le> i \<and> i \<le> ?n \<longrightarrow> fmlookup F i \<noteq> None"
    using pre lt by simp
  have w: "wrap64 (LastProcessedMessageNumber ?rocket + 1) = ?n"
    using Suc.prems(1,4) m(4) by (simp add: wrap64_next)
  have found: "fmlookup (pendingFor r c) (wrap64 (LastProcessedMessageNumber ?rocket + 1)) = Some msg"
    using Suc.prems(6) msg w by simp
  have ok: "payloadOK msg"
  proof -
    have "1 \<le> ?n \<and> ?n \<le> k'"
      using lt Suc.prems(1) by simp
    then show ?thesis
      using acc msg unfolding accOK_def by blast
  qed
  have gate: "\<not> Exploded ?rocket \<or> MessageType msg = MessageTypeRocketLaunched"
    by (rule gate_open [OF fam Suc.prems(1) pre_n msg])
  let ?rs = "if payloadOK msg \<and> MessageType msg = MessageTypeRocketExploded
             then clearPendingExceptLaunch r c else r"
  have res: "processMessageByType r ?rocket msg = (True, transition ?rocket msg, ?rs)"
    using processMessageByType_pure [OF gate, of r] ok by (simp add: replay_ID)
  have nogate: "\<not> (Exploded ?rocket \<and> MessageType msg \<noteq> MessageTypeRocketLaunched)"
    using gate by simp
  let ?r2 = "deletePending (setProcessed ?rs c ?n) c ?n"
  have next_rocket: "replay F c (nat ?n) = applied ?rocket msg"
    by (rule replay_Suc [OF Suc.prems(1) msg])
  have unfold: "processPendingLoop c ?rocket r = processPendingLoop c (replay F c (nat ?n)) ?r2"
    using loop_ok [OF found nogate res] by (simp only: w next_rocket applied_def m(1))
  have above: "\<forall>n. ?n < n \<longrightarrow> fmlookup (pendingFor r c) n = fmlookup F n"
    using Suc.prems(6) by simp
  have keep: "\<forall>n. ?n < n \<longrightarrow> fmlookup (pendingFor ?rs c) n = fmlookup F n"
    by (rule sweep_above [OF fam msg pre_n above])
  have gone: "fmlookup (pendingFor ?rs c) n = None" if "n \<le> j" for n
  proof -
    have "fmlookup (pendingFor r c) n = None"
      using Suc.prems(6) that by simp
    then show ?thesis
      by (rule sweep_none)
  qed
  have pend2: "\<forall>n. fmlookup (pendingFor ?r2 c) n = (if ?n < n then fmlookup F n else None)"
  proof
    fix n
    consider "?n < n" | "n = ?n" | "n \<le> j"
      by linarith
    then show "fmlookup (pendingFor ?r2 c) n = (if ?n < n then fmlookup F n else None)"
    proof cases
      case 1
      then show ?thesis
        using keep by simp
    next
      case 2
      then show ?thesis
        by simp
    next
      case 3
      then show ?thesis
        using gone [OF 3] by simp
    qed
  qed
  have pm: "fmlookup (processedMessages ?rs) c \<noteq> None"
    using Suc.prems(5) by simp
  have ih: "\<exists>r'. processPendingLoop c (replay F c (nat ?n)) ?r2 = (replay F c (nat k'), r') \<and>
          onlyChan c ?r2 r' \<and>
          (\<forall>n. fmlookup (pendingFor r' c) n = (if k' < n then fmlookup F n else None)) \<and>
          (\<forall>n. fmlookup (processedFor r' c) n =
                 (if ?n < n \<and> n \<le> k' then Some True else fmlookup (processedFor ?r2 c) n))"
  proof (rule Suc.IH)
    show "0 \<le> ?n" using Suc.prems(1) by simp
    show "?n \<le> k'" using lt by simp
    show "d = nat (k' - ?n)" using Suc.prems(3) by simp
    show "LastProcessedMessageNumber (replay F c (nat ?n)) = ?n"
      by (simp add: next_rocket m(1))
    show "fmlookup (processedMessages ?r2) c \<noteq> None"
      by simp
    show "\<forall>n. fmlookup (pendingFor ?r2 c) n = (if ?n < n then fmlookup F n else None)"
      by (rule pend2)
  qed
  then obtain r' where r': "processPendingLoop c (replay F c (nat ?n)) ?r2 = (replay F c (nat k'), r')"
    and oc: "onlyChan c ?r2 r'"
    and pend: "\<forall>n. fmlookup (pendingFor r' c) n = (if k' < n then fmlookup F n else None)"
    and proc: "\<forall>n. fmlookup (processedFor r' c) n =
                 (if ?n < n \<and> n \<le> k' then Some True else fmlookup (processedFor ?r2 c) n)"
    by blast
  have "onlyChan c r ?rs"
    by (rule onlyChan_sweep)
  then have "onlyChan c r r'"
    using onlyChan_trans [OF _ onlyChan_trans [OF onlyChan_step [OF pm] oc]] by blast
  moreover have "\<forall>n. fmlookup (processedFor r' c) n =
                 (if j < n \<and> n \<le> k' then Some True else fmlookup (processedFor r c) n)"
  proof
    fix n
    have "fmlookup (processedFor ?r2 c) n = (if n = ?n then Some True else fmlookup (processedFor r c) n)"
      by (simp add: sweep_processed)
    then show "fmlookup (processedFor r' c) n =
                 (if j < n \<and> n \<le> k' then Some True else fmlookup (processedFor r c) n)"
      using proc lt by auto
  qed
  ultimately show ?case
    using unfold r' pend by auto
qed

lemma Mid_Rep:
  "Mid r0 c F k r \<Longrightarrow> F \<noteq> fmempty \<Longrightarrow> k \<noteq> 0 \<or> hasLaunch F \<Longrightarrow> Rep r0 c F k r"
  by (auto simp: Mid_def Rep_def)

lemma replay_props:
  assumes "family c F"
  shows "(\<forall>i. 1 \<le> i \<and> i \<le> int j \<longrightarrow> fmlookup F i \<noteq> None) \<Longrightarrow>
           LastProcessedMessageNumber (replay F c j) = int j"
proof (induction j)
  case 0
  then show ?case by (simp add: newRocketState_def)
next
  case (Suc j)
  have "fmlookup F (int (Suc j)) \<noteq> None"
    using Suc.prems by simp
  then obtain msg where msg: "fmlookup F (int (Suc j)) = Some msg"
    by auto
  have "MessageNumber msg = int (Suc j)"
    by (rule family_msg(1) [OF assms msg])
  then show ?case
    using msg by simp
qed

lemma replay_cong:
  "(\<forall>i. 1 \<le> i \<and> i \<le> int j \<longrightarrow> fmlookup F i = fmlookup F' i) \<Longrightarrow>
     replay F c j = replay F' c j"
proof (induction j)
  case 0
  then show ?case by simp
next
  case (Suc j)
  have "replay F c j = replay F' c j"
    using Suc.prems by (intro Suc.IH) simp
  moreover have "fmlookup F (int (Suc j)) = fmlookup F' (int (Suc j))"
    using Suc.prems by simp
  ultimately show ?case
    by (simp split: option.splits)
qed

lemma cursor_replay:
  assumes "family c F" and "isCursor F k"
  shows "LastProcessedMessageNumber (replay F c (nat k)) = k" "k < 2 ^ 63"
proof -
  have pre: "\<forall>i. 1 \<le> i \<and> i \<le> int (nat k) \<longrightarrow> fmlookup F i \<noteq> None"
    using assms(2) by (simp add: isCursor_def)
  have k: "0 \<le> k"
    using assms(2) by (simp add: isCursor_def)
  show "LastProcessedMessageNumber (replay F c (nat k)) = k"
    using replay_props [OF assms(1) pre] k by simp
  show "k < 2 ^ 63"
    using cursor_bound [OF assms(1) k] assms(2) unfolding isCursor_def by blast
qed

lemma enter_no_rocket:
  assumes rep: "Rep r0 c F k r" and "Channel msg = c" and "MessageNumber msg = n" and "k < n"
    and none: "fmlookup (rockets r) c = None"
    and nl: "MessageType msg \<noteq> MessageTypeRocketLaunched"
  shows "ProcessMessage r msg = (True, setPending (initMaps r c) c n msg)"
proof -
  have "fmlookup (processedFor r c) n = None"
    using rep assms(4) by (simp add: Rep_def)
  then have "\<not> isProcessed (initMaps r c) c n"
    by (simp add: isProcessed_def)
  then show ?thesis
    using assms(2,3) none nl by (simp add: ProcessMessage_def Let_def)
qed

lemma enter_rocket:
  assumes rep: "Rep r0 c F k r" and "Channel msg = c" and "MessageNumber msg = n" and "k < n"
    and some: "fmlookup (rockets r) c \<noteq> None \<or> MessageType msg = MessageTypeRocketLaunched"
  shows "\<exists>r2. ProcessMessage r msg = processInSequence r2 (replay F c (nat k)) msg \<and> Mid r0 c F k r2"
proof -
  let ?r1 = "initMaps r c"
  have "fmlookup (processedFor r c) n = None"
    using rep assms(4) by (simp add: Rep_def)
  then have np: "\<not> isProcessed ?r1 c n"
    by (simp add: isProcessed_def)
  show ?thesis
  proof (cases "fmlookup (rockets r) c")
    case None
    then have k0: "k = 0"
      using rep by (auto simp: Rep_def split: if_splits)
    have launch: "MessageType msg = MessageTypeRocketLaunched"
      using some None by simp
    let ?r2 = "storeRocket ?r1 c (newRocketState c)"
    have "ProcessMessage r msg = processInSequence ?r2 (newRocketState c) msg"
      using np None launch assms(2,3) by (simp add: ProcessMessage_def Let_def)
    moreover have "Mid r0 c F k ?r2"
      using rep k0 by (auto simp: Mid_def Rep_def)
    ultimately show ?thesis
      using k0 by auto
  next
    case (Some rocket)
    then have rocket: "rocket = replay F c (nat k)"
      using rep by (auto simp: Rep_def split: if_splits)
    have "ProcessMessage r msg = processInSequence ?r1 rocket msg"
      using np Some assms(2,3) by (simp add: ProcessMessage_def Let_def)
    moreover have "Mid r0 c F k ?r1"
      using rep Some rocket by (auto simp: Mid_def Rep_def)
    ultimately show ?thesis
      using rocket by auto
  qed
qed

lemma subfamily_family: "subfamily F G \<Longrightarrow> family c G \<Longrightarrow> family c F"
proof -
  assume sub: "subfamily F G" and fam: "family c G"
  have up: "fmlookup G n = Some m" if "fmlookup F n = Some m" for n m
    using sub that unfolding subfamily_def by blast
  have a: "MessageNumber msg = n \<and> Channel msg = c \<and> 0 < n \<and> n < 2 ^ 63"
    if "fmlookup F n = Some msg" for n msg
    using family_msg [OF fam up [OF that]] by simp
  have b: "MessageType msg = MessageTypeRocketLaunched" if "fmlookup F 1 = Some msg" for msg
    by (rule family_first [OF fam up [OF that]])
  have c: "MessageType m = MessageTypeRocketLaunched"
    if "fmlookup F e = Some msg" "MessageType msg = MessageTypeRocketExploded"
      "\<forall>i. 1 \<le> i \<and> i \<le> e \<longrightarrow> fmlookup F i \<noteq> None" "e < n" "fmlookup F n = Some m"
    for e msg n m
  proof -
    have "\<forall>i. 1 \<le> i \<and> i \<le> e \<longrightarrow> fmlookup G i \<noteq> None"
    proof (intro allI impI)
      fix i
      assume "1 \<le> i \<and> i \<le> e"
      then have "fmlookup F i \<noteq> None"
        using that(3) by blast
      then obtain x where "fmlookup F i = Some x"
        by auto
      then show "fmlookup G i \<noteq> None"
        using up by simp
    qed
    then show ?thesis
      using family_swept [OF fam up [OF that(1)] that(2) _ that(4) up [OF that(5)]] by blast
  qed
  show "family c F"
    unfolding family_def using a b c by blast
qed

lemma family_extend:
  assumes "family c (fmupd n msg F)" and "fmlookup F n = None"
  shows "family c F" "MessageNumber msg = n" "Channel msg = c" "0 < n" "n < 2 ^ 63"
proof -
  have sub: "fmlookup (fmupd n msg F) i = Some m" if "fmlookup F i = Some m" for i m
    using that assms(2) by (cases "i = n") simp_all
  then have "subfamily F (fmupd n msg F)"
    unfolding subfamily_def by blast
  then show "family c F"
    using assms(1) by (rule subfamily_family)
  have "fmlookup (fmupd n msg F) n = Some msg"
    by simp
  then show "MessageNumber msg = n" "Channel msg = c" "0 < n" "n < 2 ^ 63"
    using family_msg [OF assms(1)] by blast+
qed

lemma cursor_exists: "\<exists>k. isCursor F k"
proof -
  have "\<exists>d::nat. fmlookup F (int d + 1) = None"
  proof (rule ccontr)
    assume "\<not> (\<exists>d::nat. fmlookup F (int d + 1) = None)"
    then have "(\<lambda>d::nat. int d + 1) ` UNIV \<subseteq> fmdom' F"
      by (auto simp: fmlookup_dom'_iff)
    then have "finite ((\<lambda>d::nat. int d + 1) ` UNIV)"
      by (rule finite_subset) simp
    moreover have "inj (\<lambda>d::nat. int d + 1)"
      by (simp add: inj_def)
    ultimately have "finite (UNIV :: nat set)"
      by (rule finite_imageD)
    then show False
      by simp
  qed
  then have "\<exists>d::nat. fmlookup F (int d + 1) = None \<and>
               (\<forall>e<d. fmlookup F (int e + 1) \<noteq> None)"
    using exists_least_iff [of "\<lambda>d. fmlookup F (int d + 1) = None"] by blast
  then obtain d :: nat where d: "fmlookup F (int d + 1) = None"
    and least: "\<And>e. e < d \<Longrightarrow> fmlookup F (int e + 1) \<noteq> None"
    by blast
  have "fmlookup F i \<noteq> None" if "1 \<le> i" "i \<le> int d" for i
  proof -
    have "nat (i - 1) < d" "int (nat (i - 1)) + 1 = i"
      using that by simp_all
    then show ?thesis
      using least [of "nat (i - 1)"] by simp
  qed
  then have "isCursor F (int d)"
    using d by (simp add: isCursor_def)
  then show ?thesis ..
qed

lemma beyond_cursor:
  assumes "isCursor F k" and "fmlookup F n = None" and "0 < n"
  shows "k < n"
proof (rule ccontr)
  assume "\<not> k < n"
  then have "1 \<le> n \<and> n \<le> k"
    using assms(3) by simp
  then have "fmlookup F n \<noteq> None"
    using assms(1) unfolding isCursor_def by blast
  then show False
    using assms(2) by simp
qed

lemma seq_later:
  assumes mid: "Mid r0 c F k r" and fam: "family c (fmupd n msg F)"
    and none: "fmlookup F n = None" and cur: "isCursor F k" and far: "n \<noteq> k + 1"
  shows "processInSequence r (replay F c (nat k)) msg = (True, setPending r c n msg)"
    and "Mid r0 c (fmupd n msg F) k (setPending r c n msg)"
    and "isCursor (fmupd n msg F) k"
proof -
  note ext = family_extend [OF fam none]
  have kn: "k < n"
    by (rule beyond_cursor [OF cur none ext(4)])
  note rp = cursor_replay [OF ext(1) cur]
  have k0: "0 \<le> k"
    using cur by (simp add: isCursor_def)
  have "wrap64 (k + 1) < n"
  proof (cases "k + 1 < 2 ^ 63")
    case True
    then have "wrap64 (k + 1) = k + 1"
      using k0 by (intro wrap64_next)
    then show ?thesis
      using kn far by simp
  next
    case False
    then have "wrap64 (k + 1) < 0"
      using k0 rp(2) by (intro wrap64_last)
    then show ?thesis
      using ext(4) by simp
  qed
  then have "wrap64 (LastProcessedMessageNumber (replay F c (nat k)) + 1) < MessageNumber msg"
    by (simp add: rp(1) ext(2))
  from processInSequence_later [OF this]
  show "processInSequence r (replay F c (nat k)) msg = (True, setPending r c n msg)"
    by (simp add: ext(2,3))
  have same: "replay (fmupd n msg F) c (nat k) = replay F c (nat k)"
    using kn k0 by (intro replay_cong) simp
  show "Mid r0 c (fmupd n msg F) k (setPending r c n msg)"
    using mid kn by (auto simp: Mid_def same)
  show "isCursor (fmupd n msg F) k"
    using cur far kn by (auto simp: isCursor_def)
qed

lemma seq_gate:
  assumes fam: "family c (fmupd n msg F)" and cur: "isCursor F k" and now: "n = k + 1"
  shows "\<not> Exploded (replay F c (nat k)) \<or> MessageType msg = MessageTypeRocketLaunched"
proof -
  let ?F = "fmupd n msg F"
  have k0: "0 \<le> k"
    using cur by (simp add: isCursor_def)
  have same: "replay ?F c (nat k) = replay F c (nat k)"
    using now k0 by (intro replay_cong) simp
  have pre: "\<forall>i. 1 \<le> i \<and> i \<le> k + 1 \<longrightarrow> fmlookup ?F i \<noteq> None"
    using cur now by (auto simp: isCursor_def)
  have msg: "fmlookup ?F (k + 1) = Some msg"
    using now by simp
  show ?thesis
    using gate_open [OF fam k0 pre msg] by (simp add: same)
qed

lemma seq_flag:
  assumes mid: "Mid r0 c F k r" and fam: "family c (fmupd n msg F)"
    and none: "fmlookup F n = None" and cur: "isCursor F k" and now: "n = k + 1"
  shows "fst (processInSequence r (replay F c (nat k)) msg) = payloadOK msg"
proof -
  note ext = family_extend [OF fam none]
  note rp = cursor_replay [OF ext(1) cur]
  have k0: "0 \<le> k"
    using cur by (simp add: isCursor_def)
  let ?rocket = "replay F c (nat k)"
  have exp: "MessageNumber msg = wrap64 (LastProcessedMessageNumber ?rocket + 1)"
    using wrap64_next [OF k0] ext(5) now by (simp add: rp(1) ext(2))
  note res = processMessageByType_pure [OF seq_gate [OF fam cur now], of r]
  have rk: "fmlookup (rockets r) (Channel msg) = Some ?rocket"
    using mid by (simp add: Mid_def ext(3))
  show ?thesis
  proof (cases "payloadOK msg")
    case True
    then show ?thesis
      using processInSequence_applied [OF exp] res by simp
  next
    case False
    then have "processMessageByType r ?rocket msg = (False, transition ?rocket msg, r)"
      using res by simp
    then show ?thesis
      using processInSequence_rejected [OF exp _ rk] False by simp
  qed
qed

lemma seq_now:
  assumes mid: "Mid r0 c F k r" and fam: "family c (fmupd n msg F)"
    and none: "fmlookup F n = None" and cur: "isCursor F k" and now: "n = k + 1"
    and cur': "isCursor (fmupd n msg F) k'" and acc: "accOK (fmupd n msg F) k'"
  shows "\<exists>r'. processInSequence r (replay F c (nat k)) msg = (True, r') \<and>
              Mid r0 c (fmupd n msg F) k' r'" and "1 \<le> k'"
proof -
  let ?F = "fmupd n msg F"
  note ext = family_extend [OF fam none]
  note rp = cursor_replay [OF ext(1) cur]
  have k0: "0 \<le> k"
    using cur by (simp add: isCursor_def)
  have le: "n \<le> k'"
  proof (rule ccontr)
    assume "\<not> n \<le> k'"
    then have "k' + 1 \<le> n" by simp
    moreover have "0 \<le> k'"
      using cur' by (simp add: isCursor_def)
    ultimately have "fmlookup ?F (k' + 1) \<noteq> None"
      using cur now by (auto simp: isCursor_def)
    then show False
      using cur' by (simp add: isCursor_def)
  qed
  then show "1 \<le> k'"
    using ext(4) by simp
  have pre: "\<forall>i. 1 \<le> i \<and> i \<le> k' \<longrightarrow> fmlookup ?F i \<noteq> None"
    and stop: "fmlookup ?F (k' + 1) = None"
    using cur' by (simp_all add: isCursor_def)
  let ?rocket = "replay F c (nat k)"
  have same: "replay ?F c (nat k) = ?rocket"
    using now k0 by (intro replay_cong) simp
  have exp: "MessageNumber msg = wrap64 (LastProcessedMessageNumber ?rocket + 1)"
    using wrap64_next [OF k0] ext(5) now by (simp add: rp(1) ext(2))
  have ok: "payloadOK msg"
    using acc le ext(4) unfolding accOK_def by (metis fmupd_lookup int_one_le_iff_zero_less)
  define rs where "rs = (if payloadOK msg \<and> MessageType msg = MessageTypeRocketExploded
                         then clearPendingExceptLaunch r c else r)"
  have res: "processMessageByType r ?rocket msg = (True, transition ?rocket msg, rs)"
    using processMessageByType_pure [OF seq_gate [OF fam cur now], of r] ok
    by (simp add: replay_ID rs_def)
  have ocs: "onlyChan c r rs"
    unfolding rs_def by (rule onlyChan_sweep)
  have procs: "processedFor rs c = processedFor r c"
    unfolding rs_def by (rule sweep_processed)
  have nxt: "replay ?F c (nat n) = applied ?rocket msg"
    using replay_Suc [OF k0, of ?F msg c] now same by simp
  let ?r3 = "storeRocket (setProcessed rs c n) c (replay ?F c (nat n))"
  have seq: "processInSequence r ?rocket msg = (True, processPendingMessages ?r3 c)"
    using processInSequence_applied [OF exp res] by (simp add: nxt applied_def ext(2,3))
  have pre_n: "\<forall>i. 1 \<le> i \<and> i \<le> int (nat n) \<longrightarrow> fmlookup ?F i \<noteq> None"
    using pre le by auto
  have rpn: "LastProcessedMessageNumber (replay ?F c (nat n)) = n"
    using replay_props [OF fam pre_n] ext(4) by simp
  have pre_e: "\<forall>i. 1 \<le> i \<and> i \<le> n \<longrightarrow> fmlookup ?F i \<noteq> None"
    using pre le by auto
  have here: "fmlookup ?F n = Some msg"
    by simp
  have above: "\<forall>i. n < i \<longrightarrow> fmlookup (pendingFor r c) i = fmlookup ?F i"
    using mid now by (simp add: Mid_def)
  have keep: "\<forall>i. n < i \<longrightarrow> fmlookup (pendingFor rs c) i = fmlookup ?F i"
    unfolding rs_def by (rule sweep_above [OF fam here pre_e above])
  have gone: "fmlookup (pendingFor rs c) i = None" if "i \<le> n" for i
  proof -
    have "fmlookup (pendingFor r c) i = None"
    proof (cases "i = n")
      case True
      then show ?thesis
        using mid none by (simp add: Mid_def)
    next
      case False
      then have "\<not> k < i"
        using that now by simp
      then show ?thesis
        using mid by (simp add: Mid_def)
    qed
    then show ?thesis
      unfolding rs_def by (rule sweep_none)
  qed
  have pend3: "\<forall>i. fmlookup (pendingFor ?r3 c) i = (if n < i then fmlookup ?F i else None)"
  proof
    fix i
    show "fmlookup (pendingFor ?r3 c) i = (if n < i then fmlookup ?F i else None)"
    proof (cases "n < i")
      case True
      then show ?thesis
        using keep by simp
    next
      case False
      then have "i \<le> n"
        by simp
      then show ?thesis
        using gone False by simp
    qed
  qed
  have "\<exists>r'. processPendingLoop c (replay ?F c (nat n)) ?r3 = (replay ?F c (nat k'), r') \<and>
          onlyChan c ?r3 r' \<and>
          (\<forall>i. fmlookup (pendingFor r' c) i = (if k' < i then fmlookup ?F i else None)) \<and>
          (\<forall>i. fmlookup (processedFor r' c) i =
                 (if n < i \<and> i \<le> k' then Some True else fmlookup (processedFor ?r3 c) i))"
  proof (rule drain_prefix [OF fam acc pre stop])
    show "0 \<le> n" using ext(4) by simp
    show "n \<le> k'" by (rule le)
    show "nat (k' - n) = nat (k' - n)" ..
    show "LastProcessedMessageNumber (replay ?F c (nat n)) = n" by (rule rpn)
    show "fmlookup (processedMessages ?r3) c \<noteq> None" by simp
    show "\<forall>i. fmlookup (pendingFor ?r3 c) i = (if n < i then fmlookup ?F i else None)"
      by (rule pend3)
  qed
  then obtain r4 where loop: "processPendingLoop c (replay ?F c (nat n)) ?r3 = (replay ?F c (nat k'), r4)"
    and oc: "onlyChan c ?r3 r4"
    and pend: "\<forall>i. fmlookup (pendingFor r4 c) i = (if k' < i then fmlookup ?F i else None)"
    and proc: "\<forall>i. fmlookup (processedFor r4 c) i =
                 (if n < i \<and> i \<le> k' then Some True else fmlookup (processedFor ?r3 c) i)"
    by blast
  let ?r5 = "storeRocket r4 c (replay ?F c (nat k'))"
  have fin: "processPendingMessages ?r3 c = ?r5"
    using loop by (simp add: processPendingMessages_def)
  have others: "fmlookup (rockets ?r5) c' = fmlookup (rockets r0) c' \<and>
                fmlookup (processedMessages ?r5) c' = fmlookup (processedMessages r0) c' \<and>
                fmlookup (pendingMessages ?r5) c' = fmlookup (pendingMessages r0) c'"
    if "c' \<noteq> c" for c'
    using that oc ocs mid by (simp add: onlyChan_def Mid_def)
  have p5: "\<forall>i. fmlookup (processedFor ?r5 c) i = (if 1 \<le> i \<and> i \<le> k' then Some True else None)"
  proof
    fix i
    have a: "fmlookup (processedFor ?r3 c) i =
               (if i = n \<or> (1 \<le> i \<and> i \<le> k) then Some True else None)"
      using mid by (simp add: Mid_def procs)
    have b: "fmlookup (processedFor ?r5 c) i =
               (if n < i \<and> i \<le> k' then Some True else fmlookup (processedFor ?r3 c) i)"
      using proc by simp
    have c: "(n < i \<and> i \<le> k') \<or> i = n \<or> (1 \<le> i \<and> i \<le> k) \<longleftrightarrow> 1 \<le> i \<and> i \<le> k'"
      using le now k0 by auto
    show "fmlookup (processedFor ?r5 c) i = (if 1 \<le> i \<and> i \<le> k' then Some True else None)"
      unfolding b a using c by auto
  qed
  have ex: "fmlookup (processedMessages ?r5) c \<noteq> None" "fmlookup (pendingMessages ?r5) c \<noteq> None"
    using oc ocs mid by (simp_all add: onlyChan_def Mid_def)
  have "Mid r0 c ?F k' ?r5"
    unfolding Mid_def using others p5 pend ex by simp
  then show "\<exists>r'. processInSequence r ?rocket msg = (True, r') \<and> Mid r0 c ?F k' r'"
    using seq fin by simp
qed

lemma received_member:
  "fmlookup (received msgs) n = Some msg \<Longrightarrow> msg \<in> set msgs \<and> MessageNumber msg = n"
  by (induction msgs) (auto split: if_splits)

lemma received_None:
  "fmlookup (received msgs) n = None \<longleftrightarrow> n \<notin> MessageNumber ` set msgs"
  by (induction msgs) auto

lemma received_lookup:
  "distinct (map MessageNumber msgs) \<Longrightarrow> msg \<in> set msgs \<Longrightarrow>
     fmlookup (received msgs) (MessageNumber msg) = Some msg"
  by (induction msgs) auto

lemma received_eq:
  assumes "distinct (map MessageNumber xs)" and "distinct (map MessageNumber ys)"
    and "set xs = set ys"
  shows "received xs = received ys"
proof (rule fmap_ext)
  fix n
  show "fmlookup (received xs) n = fmlookup (received ys) n"
  proof (cases "fmlookup (received xs) n")
    case None
    then have "n \<notin> MessageNumber ` set ys"
      using assms(3) by (simp add: received_None)
    then have "fmlookup (received ys) n = None"
      by (simp add: received_None)
    then show ?thesis
      using None by simp
  next
    case (Some msg)
    then have "msg \<in> set ys" "MessageNumber msg = n"
      using received_member [OF Some] assms(3) by simp_all
    then show ?thesis
      using received_lookup [OF assms(2), of msg] Some by simp
  qed
qed

lemma received_snoc:
  "MessageNumber msg \<notin> MessageNumber ` set msgs \<Longrightarrow>
     received (msgs @ [msg]) = fmupd (MessageNumber msg) msg (received msgs)"
proof (induction msgs)
  case Nil
  then show ?case by simp
next
  case (Cons a msgs)
  then have "MessageNumber a \<noteq> MessageNumber msg"
    by auto
  then show ?case
    using Cons by (simp add: fmupd_reorder_neq)
qed

lemma ProcessAll_snoc:
  "ProcessAll r (msgs @ [msg]) = snd (ProcessMessage (ProcessAll r msgs) msg)"
  by (induction msgs arbitrary: r) simp_all

lemma ProcessFlags_snoc:
  "ProcessFlags r (msgs @ [msg]) =
     ProcessFlags r msgs @ [fst (ProcessMessage (ProcessAll r msgs) msg)]"
  by (induction msgs arbitrary: r) simp_all

lemma Rep_fresh: "freshChannel r0 c \<Longrightarrow> Rep r0 c fmempty 0 r0"
  by (simp add: Rep_def freshChannel_def hasLaunch_def processedFor_def pendingFor_def)

lemma isCursor_empty: "isCursor fmempty 0"
  by (simp add: isCursor_def)

lemma hasLaunch_fmupd:
  "fmlookup F n = None \<Longrightarrow>
     hasLaunch (fmupd n msg F) \<longleftrightarrow> hasLaunch F \<or> MessageType msg = MessageTypeRocketLaunched"
  unfolding hasLaunch_def
  by (metis fmupd_lookup option.distinct(1) option.inject)

lemma step_flag:
  assumes rep: "Rep r0 c F k r" and cur: "isCursor F k" and fam: "family c (fmupd n msg F)"
    and none: "fmlookup F n = None" and now: "n = k + 1"
  shows "fst (ProcessMessage r msg) = payloadOK msg"
proof -
  note ext = family_extend [OF fam none]
  have kn: "k < n"
    using now by simp
  have "fmlookup (rockets r) c \<noteq> None \<or> MessageType msg = MessageTypeRocketLaunched"
  proof (cases "k = 0")
    case True
    then have "fmlookup (fmupd n msg F) 1 = Some msg"
      using now by simp
    then show ?thesis
      using family_first [OF fam] by blast
  next
    case False
    then show ?thesis
      using rep by (simp add: Rep_def)
  qed
  from enter_rocket [OF rep ext(3,2) kn this]
  obtain r2 where "ProcessMessage r msg = processInSequence r2 (replay F c (nat k)) msg"
    and "Mid r0 c F k r2"
    by blast
  then show ?thesis
    using seq_flag [OF _ fam none cur now] by simp
qed

lemma step:
  assumes rep: "Rep r0 c F k r" and cur: "isCursor F k" and fam: "family c (fmupd n msg F)"
    and none: "fmlookup F n = None"
    and cur': "isCursor (fmupd n msg F) k'" and acc: "accOK (fmupd n msg F) k'"
  shows "Rep r0 c (fmupd n msg F) k' (snd (ProcessMessage r msg))"
proof -
  let ?F = "fmupd n msg F"
  note ext = family_extend [OF fam none]
  have kn: "k < n"
    by (rule beyond_cursor [OF cur none ext(4)])
  have ne: "?F \<noteq> fmempty"
    by (metis fmempty_lookup fmupd_lookup option.distinct(1))
  show ?thesis
  proof (cases "fmlookup (rockets r) c = None \<and> MessageType msg \<noteq> MessageTypeRocketLaunched")
    case True
    then have k0: "k = 0" and nol: "\<not> hasLaunch F"
      using rep by (auto simp: Rep_def split: if_splits)
    have n1: "n \<noteq> k + 1"
    proof
      assume "n = k + 1"
      then have "fmlookup ?F 1 = Some msg"
        using k0 by simp
      then have "MessageType msg = MessageTypeRocketLaunched"
        by (rule family_first [OF fam])
      then show False
        using True by simp
    qed
    have "isCursor ?F k"
      using cur n1 kn by (auto simp: isCursor_def)
    then have kk: "k' = k"
      using isCursor_unique [OF cur'] by simp
    have out: "ProcessMessage r msg = (True, setPending (initMaps r c) c n msg)"
      using enter_no_rocket [OF rep ext(3,2) kn] True by simp
    have "\<not> hasLaunch ?F"
      using hasLaunch_fmupd [OF none] nol True by simp
    then have "Rep r0 c ?F k (setPending (initMaps r c) c n msg)"
      using rep k0 kn ne True by (auto simp: Rep_def)
    then show ?thesis
      by (simp add: out kk)
  next
    case False
    then have some: "fmlookup (rockets r) c \<noteq> None \<or> MessageType msg = MessageTypeRocketLaunched"
      by auto
    from enter_rocket [OF rep ext(3,2) kn some]
    obtain r2 where pm: "ProcessMessage r msg = processInSequence r2 (replay F c (nat k)) msg"
      and mid: "Mid r0 c F k r2"
      by blast
    have launchy: "k \<noteq> 0 \<or> hasLaunch ?F"
    proof (cases "MessageType msg = MessageTypeRocketLaunched")
      case True
      then show ?thesis
        using hasLaunch_fmupd [OF none] by simp
    next
      case nl: False
      then have "fmlookup (rockets r) c \<noteq> None"
        using some by simp
      then have "k \<noteq> 0 \<or> hasLaunch F"
        using rep by (auto simp: Rep_def split: if_splits)
      then show ?thesis
        using hasLaunch_fmupd [OF none] by auto
    qed
    show ?thesis
    proof (cases "n = k + 1")
      case True
      from seq_now [OF mid fam none cur True cur' acc]
      obtain r' where "processInSequence r2 (replay F c (nat k)) msg = (True, r')"
        and "Mid r0 c ?F k' r'" and "1 \<le> k'"
        by blast
      then show ?thesis
        using Mid_Rep [of r0 c ?F k' r'] ne by (simp add: pm)
    next
      case far: False
      note later = seq_later [OF mid fam none cur far]
      have kk: "k' = k"
        using isCursor_unique [OF cur' later(3)] .
      show ?thesis
        using Mid_Rep [OF later(2) ne launchy] by (simp add: pm later(1) kk)
    qed
  qed
qed

lemma subfamily_cursor:
  assumes "subfamily F G" and "isCursor F k" and "isCursor G K"
  shows "k \<le> K"
proof (rule ccontr)
  assume "\<not> k \<le> K"
  moreover have "0 \<le> K"
    using assms(3) by (simp add: isCursor_def)
  ultimately have "1 \<le> K + 1 \<and> K + 1 \<le> k"
    by simp
  then have "fmlookup F (K + 1) \<noteq> None"
    using assms(2) unfolding isCursor_def by blast
  then have "fmlookup G (K + 1) \<noteq> None"
    using assms(1) unfolding subfamily_def by auto
  then show False
    using assms(3) by (simp add: isCursor_def)
qed

lemma subfamily_accOK:
  assumes "subfamily F G" and "accOK G K" and "k \<le> K"
  shows "accOK F k"
  using assms unfolding subfamily_def accOK_def by (meson order_trans)

lemma subfamily_received:
  assumes "\<forall>m \<in> set xs. fmlookup G (MessageNumber m) = Some m"
  shows "subfamily (received xs) G"
  unfolding subfamily_def using assms received_member by blast

lemma run_Rep:
  assumes fresh0: "freshChannel r0 c"
    and fam: "family c G" and cur: "isCursor G K" and acc: "accOK G K"
  shows "distinct (map MessageNumber xs) \<Longrightarrow>
         \<forall>m \<in> set xs. fmlookup G (MessageNumber m) = Some m \<Longrightarrow>
         \<exists>k. isCursor (received xs) k \<and>
             Rep r0 c (received xs) k (ProcessAll r0 xs)"
proof (induction xs rule: rev_induct)
  case Nil
  then show ?case
    using isCursor_empty Rep_fresh [OF fresh0] by auto
next
  case (snoc m xs)
  let ?n = "MessageNumber m"
  let ?F = "received xs"
  have "distinct (map MessageNumber xs)" "\<forall>m \<in> set xs. fmlookup G (MessageNumber m) = Some m"
    using snoc.prems by simp_all
  then obtain k where k: "isCursor ?F k"
    and rep: "Rep r0 c ?F k (ProcessAll r0 xs)"
    using snoc.IH by blast
  have fresh: "?n \<notin> MessageNumber ` set xs"
    using snoc.prems(1) by auto
  then have none: "fmlookup ?F ?n = None"
    by (simp add: received_None)
  have F': "received (xs @ [m]) = fmupd ?n m ?F"
    by (rule received_snoc [OF fresh])
  have sub: "subfamily (fmupd ?n m ?F) G"
    using subfamily_received [OF snoc.prems(2)] by (simp add: F')
  have fam': "family c (fmupd ?n m ?F)"
    by (rule subfamily_family [OF sub fam])
  obtain k' where k': "isCursor (fmupd ?n m ?F) k'"
    using cursor_exists by blast
  have "k' \<le> K"
    by (rule subfamily_cursor [OF sub k' cur])
  then have acc': "accOK (fmupd ?n m ?F) k'"
    by (rule subfamily_accOK [OF sub acc])
  have "Rep r0 c (fmupd ?n m ?F) k' (snd (ProcessMessage (ProcessAll r0 xs) m))"
    by (rule step [OF rep k fam' none k' acc'])
  then show ?case
    using k' by (auto simp: F' ProcessAll_snoc)
qed

lemma inorder_accOK:
  assumes fresh0: "freshChannel r0 c"
  shows "sorted (map MessageNumber ys) \<Longrightarrow> distinct (map MessageNumber ys) \<Longrightarrow>
   family c (received ys) \<Longrightarrow>
   \<forall>ok \<in> set (ProcessFlags r0 ys). ok \<Longrightarrow>
     \<exists>K. isCursor (received ys) K \<and> accOK (received ys) K"
proof (induction ys rule: rev_induct)
  case Nil
  then show ?case
    using isCursor_empty by (auto simp: accOK_def)
next
  case (snoc m zs)
  let ?n = "MessageNumber m"
  let ?F = "received zs"
  let ?r = "ProcessAll r0 zs"
  have dz: "distinct (map MessageNumber zs)" and sz: "sorted (map MessageNumber zs)"
    using snoc.prems(1,2) by (simp_all add: sorted_append)
  have fresh: "?n \<notin> MessageNumber ` set zs"
    using snoc.prems(2) by auto
  then have none: "fmlookup ?F ?n = None"
    by (simp add: received_None)
  have below: "i < ?n" if "fmlookup ?F i \<noteq> None" for i
  proof -
    from that obtain z where "z \<in> set zs" "MessageNumber z = i"
      using received_member by fastforce
    moreover have "\<forall>x \<in> set (map MessageNumber zs). x \<le> ?n"
      using snoc.prems(1) by (simp add: sorted_append)
    ultimately have "i \<le> ?n"
      by auto
    moreover have "i \<noteq> ?n"
      using fresh \<open>z \<in> set zs\<close> \<open>MessageNumber z = i\<close> by (metis imageI)
    ultimately show ?thesis
      by simp
  qed
  have F': "received (zs @ [m]) = fmupd ?n m ?F"
    by (rule received_snoc [OF fresh])
  have fam': "family c (fmupd ?n m ?F)"
    using snoc.prems(3) by (simp add: F')
  note ext = family_extend [OF fam' none]
  have flags: "\<forall>ok \<in> set (ProcessFlags r0 zs). ok"
    and flag: "fst (ProcessMessage ?r m)"
    using snoc.prems(4) by (auto simp: ProcessFlags_snoc)
  obtain K where K: "isCursor ?F K" and acc: "accOK ?F K"
    using snoc.IH [OF sz dz ext(1) flags] by blast
  have mem: "\<forall>z \<in> set zs. fmlookup ?F (MessageNumber z) = Some z"
    using received_lookup [OF dz] by simp
  obtain k where k: "isCursor ?F k" and rep: "Rep r0 c ?F k ?r"
    using run_Rep [OF fresh0 ext(1) K acc dz mem] by blast
  have kK: "k = K"
    by (rule isCursor_unique [OF k K])
  show ?case
  proof (cases "?n = K + 1")
    case True
    have "payloadOK m"
      using step_flag [OF rep k fam' none] True kK flag by simp
    have K0: "0 \<le> K"
      using K by (simp add: isCursor_def)
    have "fmlookup ?F (?n + 1) = None"
      using below [of "?n + 1"] by (cases "fmlookup ?F (?n + 1)") simp_all
    then have "fmlookup (fmupd ?n m ?F) (?n + 1) = None"
      by simp
    then have "isCursor (fmupd ?n m ?F) ?n"
      using K True K0 unfolding isCursor_def by auto
    moreover have "accOK (fmupd ?n m ?F) ?n"
      using acc \<open>payloadOK m\<close> True unfolding accOK_def by auto
    ultimately show ?thesis
      unfolding F' by blast
  next
    case False
    have Kn: "K < ?n"
      by (rule beyond_cursor [OF K none ext(4)])
    have "isCursor (fmupd ?n m ?F) K"
      using K False Kn by (auto simp: isCursor_def)
    moreover have "accOK (fmupd ?n m ?F) K"
      using acc Kn unfolding accOK_def by auto
    ultimately show ?thesis
      unfolding F' by blast
  qed
qed

lemma family_received:
  assumes chan: "\<forall>m \<in> set ys. Channel m = c \<and> 0 < MessageNumber m \<and> MessageNumber m < 2 ^ 63"
    and first: "\<forall>m \<in> set ys. MessageNumber m = 1 \<longrightarrow> MessageType m = MessageTypeRocketLaunched"
    and expl: "\<forall>e \<in> set ys. \<forall>m \<in> set ys.
                 MessageType e = MessageTypeRocketExploded \<and>
                 {1..MessageNumber e} \<subseteq> MessageNumber ` set ys \<and>
                 MessageNumber e < MessageNumber m \<longrightarrow>
                 MessageType m = MessageTypeRocketLaunched"
  shows "family c (received ys)"
proof -
  let ?F = "received ys"
  have a: "MessageNumber msg = n \<and> Channel msg = c \<and> 0 < n \<and> n < 2 ^ 63"
    if "fmlookup ?F n = Some msg" for n msg
    using received_member [OF that] chan by auto
  have b: "MessageType msg = MessageTypeRocketLaunched" if "fmlookup ?F 1 = Some msg" for msg
    using received_member [OF that] first by auto
  have c: "MessageType m = MessageTypeRocketLaunched"
    if "fmlookup ?F e = Some msg" "MessageType msg = MessageTypeRocketExploded"
      "\<forall>i. 1 \<le> i \<and> i \<le> e \<longrightarrow> fmlookup ?F i \<noteq> None" "e < n" "fmlookup ?F n = Some m"
    for e msg n m
  proof -
    have e: "msg \<in> set ys" "MessageNumber msg = e"
      using received_member [OF that(1)] by simp_all
    have m: "m \<in> set ys" "MessageNumber m = n"
      using received_member [OF that(5)] by simp_all
    have "{1..MessageNumber msg} \<subseteq> MessageNumber ` set ys"
    proof
      fix i
      assume "i \<in> {1..MessageNumber msg}"
      then have "fmlookup ?F i \<noteq> None"
        using that(3) e(2) by simp
      then show "i \<in> MessageNumber ` set ys"
        by (simp add: received_None)
    qed
    then show ?thesis
      using expl e m that(2,4) by blast
  qed
  show ?thesis
    unfolding family_def using a b c by blast
qed

lemma no_launch_first:
  assumes "freshChannel r0 c" and "Channel m = c"
    and "MessageType m \<noteq> MessageTypeRocketLaunched"
  shows "snd (ProcessMessage r0 m) =
           r0\<lparr>processedMessages := fmupd c fmempty (processedMessages r0),
              pendingMessages := fmupd c (fmupd (MessageNumber m) m fmempty) (pendingMessages r0)\<rparr>"
  using assms
  by (simp add: ProcessMessage_def initMaps_def isProcessed_def processedFor_def
      pendingFor_def setPending_def freshChannel_def Let_def)

lemma no_launch_next:
  assumes "fmlookup (rockets r0) c = None" and "Channel m = c"
    and "MessageType m \<noteq> MessageTypeRocketLaunched"
  shows "snd (ProcessMessage
                (r0\<lparr>processedMessages := fmupd c fmempty (processedMessages r0),
                    pendingMessages := fmupd c F (pendingMessages r0)\<rparr>) m) =
           r0\<lparr>processedMessages := fmupd c fmempty (processedMessages r0),
              pendingMessages := fmupd c (fmupd (MessageNumber m) m F) (pendingMessages r0)\<rparr>"
  using assms
  by (simp add: ProcessMessage_def initMaps_def isProcessed_def processedFor_def
      pendingFor_def setPending_def Let_def)

lemma no_launch_run:
  assumes fresh0: "freshChannel r0 c"
  shows "distinct (map MessageNumber xs) \<Longrightarrow>
   \<forall>m \<in> set xs. Channel m = c \<and> MessageType m \<noteq> MessageTypeRocketLaunched \<Longrightarrow>
   xs \<noteq> [] \<Longrightarrow>
     ProcessAll r0 xs =
       r0\<lparr>processedMessages := fmupd c fmempty (processedMessages r0),
          pendingMessages := fmupd c (received xs) (pendingMessages r0)\<rparr>"
proof (induction xs rule: rev_induct)
  case Nil
  then show ?case by simp
next
  case (snoc m xs)
  let ?n = "MessageNumber m"
  have m: "Channel m = c" "MessageType m \<noteq> MessageTypeRocketLaunched"
    using snoc.prems(2) by simp_all
  have fresh: "?n \<notin> MessageNumber ` set xs"
    using snoc.prems(1) by auto
  have F': "received (xs @ [m]) = fmupd ?n m (received xs)"
    by (rule received_snoc [OF fresh])
  show ?case
  proof (cases "xs = []")
    case True
    then show ?thesis
      using no_launch_first [OF fresh0 m] by simp
  next
    case False
    have "distinct (map MessageNumber xs)"
      "\<forall>m \<in> set xs. Channel m = c \<and> MessageType m \<noteq> MessageTypeRocketLaunched"
      using snoc.prems(1,2) by simp_all
    then have r: "ProcessAll r0 xs =
       r0\<lparr>processedMessages := fmupd c fmempty (processedMessages r0),
          pendingMessages := fmupd c (received xs) (pendingMessages r0)\<rparr>"
      using snoc.IH False by blast
    have none: "fmlookup (rockets r0) c = None"
      using fresh0 by (simp add: freshChannel_def)
    show ?thesis
      unfolding ProcessAll_snoc r F' by (rule no_launch_next [OF none m])
  qed
qed

lemma ProcessMessage_rejecting_frame:
  assumes "\<And>r rocket. processMessageByType r rocket msg = (False, rocket, r)"
    and "MessageType msg \<noteq> MessageTypeRocketLaunched"
  shows "processedFor (snd (ProcessMessage r msg)) c' = processedFor r c'"
    and "c' \<noteq> Channel msg \<or> n' \<noteq> MessageNumber msg \<Longrightarrow>
           fmlookup (pendingFor (snd (ProcessMessage r msg)) c') n' = fmlookup (pendingFor r c') n'"
proof -
  have seq: "processedFor (snd (processInSequence r1 rocket msg)) c' = processedFor r1 c' \<and>
             (c' \<noteq> Channel msg \<or> n' \<noteq> MessageNumber msg \<longrightarrow>
                fmlookup (pendingFor (snd (processInSequence r1 rocket msg)) c') n' =
                fmlookup (pendingFor r1 c') n')"
    for r1 rocket
    using assms(1) [of r1 rocket] by (auto simp: processInSequence_def Let_def)
  show "processedFor (snd (ProcessMessage r msg)) c' = processedFor r c'"
    using assms(2) seq by (auto simp: ProcessMessage_def Let_def split: option.splits)
  show "fmlookup (pendingFor (snd (ProcessMessage r msg)) c') n' = fmlookup (pendingFor r c') n'"
    if "c' \<noteq> Channel msg \<or> n' \<noteq> MessageNumber msg"
    using that assms(2) seq by (auto simp: ProcessMessage_def Let_def split: option.splits)
qed

section \<open>The claims\<close>

subsection \<open>C1: an explosion buries the pending messages\<close>

text \<open>
  Claim C1, as the code has it. On a channel the repository holds nothing for, take
  \<open>RocketLaunched\<close> number 1 with a type and a mission, \<open>RocketSpeedIncreased\<close>
  number 5 with \<open>by = 50\<close> and \<open>RocketExploded\<close> number 2 with a reason, in this
  order. All three calls return \<open>true\<close>; afterwards the rocket is exploded with that
  reason, its speed is the launch speed, and the pending map of the channel is empty:
  the entry at 5 was deleted by the sweep of the \<open>RocketExploded\<close> case. The drain
  then finds nothing at 3, so \<open>LastProcessedMessageNumber\<close> is 2 and not 5.
\<close>

theorem C1_explosion_discards_pending_cursor_stays:
  assumes fr: "freshChannel r c"
    and m1: "Channel m1 = c" "MessageNumber m1 = 1" "MessageType m1 = MessageTypeRocketLaunched"
      "Message_Type m1 \<noteq> []" "Message_Mission m1 \<noteq> []"
    and m5: "Channel m5 = c" "MessageNumber m5 = 5"
      "MessageType m5 = MessageTypeRocketSpeedIncreased" "Message_By m5 = 50"
    and m2: "Channel m2 = c" "MessageNumber m2 = 2" "MessageType m2 = MessageTypeRocketExploded"
      "Message_Reason m2 \<noteq> []"
  shows "ProcessFlags r [m1, m5, m2] = [True, True, True] \<and>
         GetRocket (ProcessAll r [m1, m5, m2]) c =
           Some \<lparr>ID = c, Type = Message_Type m1, Speed = Message_LaunchSpeed m1,
                 Mission = Message_Mission m1, Exploded = True, Reason = Message_Reason m2,
                 CreatedAt = MessageTime m1, UpdatedAt = MessageTime m2,
                 LastProcessedMessageNumber = 2\<rparr> \<and>
         pendingFor (ProcessAll r [m1, m5, m2]) c = fmempty"
proof -
  let ?rocket1 = "\<lparr>ID = c, Type = Message_Type m1, Speed = Message_LaunchSpeed m1,
        Mission = Message_Mission m1, Exploded = False, Reason = [],
        CreatedAt = MessageTime m1, UpdatedAt = MessageTime m1,
        LastProcessedMessageNumber = 1\<rparr>"
  let ?r1 = "storeRocket (setProcessed (storeRocket (initMaps r c) c (newRocketState c)) c 1) c
               ?rocket1"
  note f = fresh_maps [OF fr]
  have s1: "ProcessMessage r m1 = (True, ?r1)"
    by (rule fresh_launch [OF fr m1])
  \<comment> \<open>number 5 is ahead of the cursor and is buffered\<close>
  let ?r2 = "setPending ?r1 c 5 m5"
  have "\<not> isProcessed ?r1 (Channel m5) (MessageNumber m5)"
    by (simp add: isProcessed_def m5 f)
  then have "ProcessMessage ?r1 m5 = processInSequence ?r1 ?rocket1 m5"
    by (intro ProcessMessage_existing) (simp_all add: m5)
  also have "\<dots> = (True, ?r2)"
    using processInSequence_later [of ?rocket1 m5 ?r1] by (simp add: m5 wrap64_def)
  finally have s2: "ProcessMessage ?r1 m5 = (True, ?r2)" .
  \<comment> \<open>number 2 is the expected one: the rocket explodes and the pending map is swept\<close>
  let ?rocket2 = "?rocket1\<lparr>Exploded := True, Reason := Message_Reason m2\<rparr>"
  let ?rocket3 = "?rocket2\<lparr>LastProcessedMessageNumber := 2, UpdatedAt := MessageTime m2\<rparr>"
  let ?r3 = "storeRocket (setProcessed (clearPendingExceptLaunch ?r2 c) c 2) c ?rocket3"
  have ex: "processMessageByType ?r2 ?rocket1 m2 = (True, ?rocket2, clearPendingExceptLaunch ?r2 c)"
    using m2 by (simp add: processMessageByType_def MessageTypeRocketLaunched_def
        MessageTypeRocketExploded_def MessageTypeRocketSpeedIncreased_def
        MessageTypeRocketSpeedDecreased_def)
  have swept: "pendingFor ?r3 c = fmempty"
    by (rule fmap_ext)
      (simp add: f fmlookup_launchOnly m5 MessageTypeRocketLaunched_def
        MessageTypeRocketSpeedIncreased_def)
  have "\<not> isProcessed ?r2 (Channel m2) (MessageNumber m2)"
    by (simp add: isProcessed_def m2 f)
  then have "ProcessMessage ?r2 m2 = processInSequence ?r2 ?rocket1 m2"
    by (intro ProcessMessage_existing) (simp_all add: m2)
  also have "\<dots> = (True, processPendingMessages ?r3 c)"
    using processInSequence_applied [of m2 ?rocket1 ?r2, OF _ ex] by (simp add: m2 wrap64_def)
  also have "processPendingMessages ?r3 c = ?r3"
  proof (rule processPendingMessages_none [where rocket = ?rocket3])
    show "fmlookup (rockets ?r3) c = Some ?rocket3"
      by simp
    show "fmlookup (pendingFor ?r3 c) (wrap64 (LastProcessedMessageNumber ?rocket3 + 1)) = None"
      by (simp only: swept fmempty_lookup)
  qed
  finally have s3: "ProcessMessage ?r2 m2 = (True, ?r3)" .
  show ?thesis
    using swept by (simp add: s1 s2 s3 GetRocket_def)
qed

text \<open>
  Claim C1, witness: the theorem above at a concrete run, its hypotheses discharged there.
\<close>

theorem C1_explosion_discards_pending_cursor_stays_witness:
  "freshChannel NewRocketRepository ''R'' \<and>
   ProcessFlags NewRocketRepository
     [launched ''R'' 1 10 ''Falcon-9'' ''ARTEMIS'' 500, speedIncreased ''R'' 5 11 50,
      exploded ''R'' 2 12 ''X''] = [True, True, True] \<and>
   GetRocket
     (ProcessAll NewRocketRepository
        [launched ''R'' 1 10 ''Falcon-9'' ''ARTEMIS'' 500, speedIncreased ''R'' 5 11 50,
         exploded ''R'' 2 12 ''X''])
     ''R'' =
     Some \<lparr>ID = ''R'', Type = ''Falcon-9'', Speed = 500, Mission = ''ARTEMIS'', Exploded = True,
           Reason = ''X'', CreatedAt = 10, UpdatedAt = 12, LastProcessedMessageNumber = 2\<rparr>"
proof -
  have f: "freshChannel NewRocketRepository ''R''"
    by (simp add: freshChannel_def NewRocketRepository_def)
  show ?thesis
    using f
      C1_explosion_discards_pending_cursor_stays [OF f,
        of "launched ''R'' 1 10 ''Falcon-9'' ''ARTEMIS'' 500" "speedIncreased ''R'' 5 11 50"
           "exploded ''R'' 2 12 ''X''"]
    by (simp add: msg_defs)
qed

text \<open>
  Claim C1, counterexample: in the scenario of the specification the cursor does not
  reach 5.
\<close>

theorem C1_counterexample:
  "map_option LastProcessedMessageNumber
     (GetRocket
        (ProcessAll NewRocketRepository
           [launched ''R'' 1 10 ''Falcon-9'' ''ARTEMIS'' 500,
            speedIncreased ''R'' 5 11 50,
            exploded ''R'' 2 12 ''X''])
        ''R'') \<noteq> Some 5"
  by (simp add: msg_defs run_defs)

subsection \<open>C2: a processed number can stay in the pending map\<close>

text \<open>
  Claim C2 says that no pending key is at or below \<open>LastProcessedMessageNumber\<close> and
  that no number is both processed and pending. The run below breaks both: a
  \<open>RocketSpeedIncreased\<close> number 1 is buffered while the channel has no rocket, a
  \<open>RocketLaunched\<close> number 2 makes the rocket and is buffered, and the redelivered
  number 1 is then applied directly. The direct path of \<open>ProcessMessage\<close> marks 1 as
  processed without deleting the entry the first delivery left at key 1, as the drain
  would have done; the drain applies 2. All three calls return \<open>true\<close>, the cursor is at
  2, and 1 is processed and still pending.
\<close>

theorem C2_processed_number_stays_pending:
  "ProcessFlags NewRocketRepository
     [speedIncreased ''R'' 1 10 50, launched ''R'' 2 11 ''Falcon-9'' ''ARTEMIS'' 500,
      speedIncreased ''R'' 1 10 50] = [True, True, True] \<and>
   map_option LastProcessedMessageNumber
     (GetRocket
        (ProcessAll NewRocketRepository
           [speedIncreased ''R'' 1 10 50, launched ''R'' 2 11 ''Falcon-9'' ''ARTEMIS'' 500,
            speedIncreased ''R'' 1 10 50])
        ''R'') = Some 2 \<and>
   isProcessed
     (ProcessAll NewRocketRepository
        [speedIncreased ''R'' 1 10 50, launched ''R'' 2 11 ''Falcon-9'' ''ARTEMIS'' 500,
         speedIncreased ''R'' 1 10 50])
     ''R'' 1 \<and>
   fmlookup
     (pendingFor
        (ProcessAll NewRocketRepository
           [speedIncreased ''R'' 1 10 50, launched ''R'' 2 11 ''Falcon-9'' ''ARTEMIS'' 500,
            speedIncreased ''R'' 1 10 50])
        ''R'') 1 = Some (speedIncreased ''R'' 1 10 50)"
  by (simp add: msg_defs run_defs)

subsection \<open>C3: when the rocket comes into being\<close>

text \<open>
  Claim C3, as the code has it. In every run from the empty repository a channel has a
  rocket if and only if a \<open>RocketLaunched\<close> message for it has been handed to
  \<open>ProcessMessage\<close>, whatever its number and whether or not it has been applied. In
  particular, for a channel without a rocket a \<open>RocketLaunched\<close> message with a number
  above 1 is buffered (the call returns \<open>true\<close> and the message is in the pending map),
  nothing is marked processed, and \<open>GetRocket\<close> at once returns the empty record that
  \<open>ProcessMessage\<close> made for it.
\<close>

theorem C3_rocket_is_made_when_a_launch_arrives:
  assumes "r = ProcessAll NewRocketRepository msgs"
  shows "(GetRocket r c \<noteq> None \<longleftrightarrow>
            (\<exists>m \<in> set msgs. Channel m = c \<and> MessageType m = MessageTypeRocketLaunched)) \<and>
         (GetRocket r (Channel msg) = None \<and> MessageType msg = MessageTypeRocketLaunched \<and>
          1 < MessageNumber msg \<longrightarrow>
            fst (ProcessMessage r msg) = True \<and>
            fmlookup (pendingFor (snd (ProcessMessage r msg)) (Channel msg)) (MessageNumber msg)
              = Some msg \<and>
            processedFor (snd (ProcessMessage r msg)) (Channel msg) = fmempty \<and>
            GetRocket (snd (ProcessMessage r msg)) (Channel msg) =
              Some \<lparr>ID = Channel msg, Type = [], Speed = 0, Mission = [], Exploded = False,
                    Reason = [], CreatedAt = 0, UpdatedAt = 0,
                    LastProcessedMessageNumber = 0\<rparr>)"
proof -
  have w: "weakInv r"
    using weakInv_ProcessAll [OF weakInv_New] assms by simp
  have a: "GetRocket r c \<noteq> None \<longleftrightarrow>
            (\<exists>m \<in> set msgs. Channel m = c \<and> MessageType m = MessageTypeRocketLaunched)"
    using rocket_after_ProcessAll [OF weakInv_New, of msgs c] assms
    by (simp add: GetRocket_def NewRocketRepository_def)
  have b: "fst (ProcessMessage r msg) = True \<and>
      fmlookup (pendingFor (snd (ProcessMessage r msg)) (Channel msg)) (MessageNumber msg)
        = Some msg \<and>
      processedFor (snd (ProcessMessage r msg)) (Channel msg) = fmempty \<and>
      GetRocket (snd (ProcessMessage r msg)) (Channel msg) = Some (newRocketState (Channel msg))"
    if none: "GetRocket r (Channel msg) = None"
      and launch: "MessageType msg = MessageTypeRocketLaunched"
      and later: "1 < MessageNumber msg"
  proof -
    let ?c = "Channel msg" and ?n = "MessageNumber msg"
    let ?r2 = "storeRocket (initMaps r ?c) ?c (newRocketState ?c)"
    have rk: "fmlookup (rockets r) ?c = None"
      using none by (simp add: GetRocket_def)
    then have empty: "processedFor r ?c = fmempty"
      using w by (simp add: weakInv_def)
    then have np: "\<not> isProcessed (initMaps r ?c) ?c ?n"
      by (simp add: isProcessed_def)
    have "wrap64 (LastProcessedMessageNumber (newRocketState ?c) + 1) < ?n"
      using later by (simp add: newRocketState_def wrap64_def)
    then have "processInSequence ?r2 (newRocketState ?c) msg = (True, setPending ?r2 ?c ?n msg)"
      by (rule processInSequence_later)
    then have "ProcessMessage r msg = (True, setPending ?r2 ?c ?n msg)"
      using np rk launch by (simp add: ProcessMessage_def Let_def)
    then show ?thesis
      using empty by (simp add: GetRocket_def)
  qed
  show ?thesis
    using a b by (simp add: newRocketState_def)
qed

text \<open>
  Claim C3, witness: the theorem above at a concrete run, its hypotheses discharged there.
\<close>

theorem C3_rocket_is_made_when_a_launch_arrives_witness:
  "GetRocket (ProcessAll NewRocketRepository [speedIncreased ''R'' 2 10 50]) ''R'' = None \<and>
   fst (ProcessMessage (ProcessAll NewRocketRepository [speedIncreased ''R'' 2 10 50])
          (launched ''R'' 3 11 ''Falcon-9'' ''ARTEMIS'' 500)) = True \<and>
   GetRocket
     (snd (ProcessMessage (ProcessAll NewRocketRepository [speedIncreased ''R'' 2 10 50])
             (launched ''R'' 3 11 ''Falcon-9'' ''ARTEMIS'' 500)))
     ''R'' =
     Some \<lparr>ID = ''R'', Type = [], Speed = 0, Mission = [], Exploded = False, Reason = [],
           CreatedAt = 0, UpdatedAt = 0, LastProcessedMessageNumber = 0\<rparr>"
proof -
  have none: "GetRocket (ProcessAll NewRocketRepository [speedIncreased ''R'' 2 10 50]) ''R'' = None"
    by (simp add: msg_defs run_defs)
  show ?thesis
    using none
      C3_rocket_is_made_when_a_launch_arrives [OF refl,
        of "[speedIncreased ''R'' 2 10 50]" "''R''" "launched ''R'' 3 11 ''Falcon-9'' ''ARTEMIS'' 500"]
    by (simp add: launched_def emptyMessage_def)
qed

text \<open>
  Claim C3, counterexample: after a single \<open>RocketLaunched\<close> number 3 on the empty
  repository the rocket is visible to \<open>GetRocket\<close> although no message has been
  applied.
\<close>

theorem C3_counterexample:
  "GetRocket
     (snd (ProcessMessage NewRocketRepository (launched ''R'' 3 10 ''Falcon-9'' ''ARTEMIS'' 500)))
     ''R'' =
     Some \<lparr>ID = ''R'', Type = [], Speed = 0, Mission = [], Exploded = False, Reason = [],
           CreatedAt = 0, UpdatedAt = 0, LastProcessedMessageNumber = 0\<rparr> \<and>
   processedFor
     (snd (ProcessMessage NewRocketRepository (launched ''R'' 3 10 ''Falcon-9'' ''ARTEMIS'' 500)))
     ''R'' = fmempty"
  by (simp add: msg_defs run_defs)

subsection \<open>C4: handing the same message in twice\<close>




subsection \<open>C5: the order of arrival\<close>

text \<open>
  Claim C5, as the code has it. Let the repository \<open>r\<close> hold nothing for the channel
  \<open>c\<close> (the empty repository is one). Let \<open>ys\<close> be messages of \<open>c\<close>, listed by increasing
  and distinct message number, every number positive and below \<open>2 ^ 63\<close>, and let
  \<open>ProcessMessage\<close> return \<open>true\<close> for each of them when they are handed to \<open>r\<close> in this
  order. Let either none of them be a \<open>RocketLaunched\<close>, or let the message with number
  1 (if there is one) be a \<open>RocketLaunched\<close> and let every message numbered above a
  \<open>RocketExploded\<close> that is reached without a gap (all numbers from 1 to its own are
  among \<open>ys\<close>) be a \<open>RocketLaunched\<close>. Then handing any rearrangement \<open>xs\<close> of \<open>ys\<close> to
  \<open>r\<close> ends in the same repository: the same rockets, the same processed numbers and
  the same pending messages.
\<close>

theorem C5_permutation_equivalence:
  assumes "freshChannel r c"
    and "mset xs = mset ys"
    and "sorted (map MessageNumber ys)" and "distinct (map MessageNumber ys)"
    and "\<forall>m \<in> set ys. Channel m = c \<and> 0 < MessageNumber m \<and> MessageNumber m < 2 ^ 63"
    and "\<forall>ok \<in> set (ProcessFlags r ys). ok"
    and "(\<forall>m \<in> set ys. MessageType m \<noteq> MessageTypeRocketLaunched) \<or>
         (\<forall>m \<in> set ys. MessageNumber m = 1 \<longrightarrow> MessageType m = MessageTypeRocketLaunched) \<and>
         (\<forall>e \<in> set ys. \<forall>m \<in> set ys.
            MessageType e = MessageTypeRocketExploded \<and>
            {1..MessageNumber e} \<subseteq> MessageNumber ` set ys \<and>
            MessageNumber e < MessageNumber m \<longrightarrow>
            MessageType m = MessageTypeRocketLaunched)"
  shows "ProcessAll r xs = ProcessAll r ys"
proof -
  let ?G = "received ys"
  have set_eq: "set xs = set ys"
    using assms(2) by (rule mset_eq_setD)
  have "mset (map MessageNumber xs) = mset (map MessageNumber ys)"
    using assms(2) by simp
  then have dx: "distinct (map MessageNumber xs)"
    using assms(4) by (metis distinct_count_atmost_1 count_mset_0_iff set_mset_mset)
  have same: "received xs = ?G"
    by (rule received_eq [OF dx assms(4) set_eq])
  show ?thesis
  proof (cases "\<forall>m \<in> set ys. MessageType m \<noteq> MessageTypeRocketLaunched")
    case True
    show ?thesis
    proof (cases "ys = []")
      case empty: True
      then have "xs = []"
        using set_eq by simp
      then show ?thesis
        using empty by simp
    next
      case False
      then have ne: "xs \<noteq> []"
        using set_eq by auto
      have by_y: "\<forall>m \<in> set ys. Channel m = c \<and> MessageType m \<noteq> MessageTypeRocketLaunched"
        using assms(5) True by simp
      then have by_x: "\<forall>m \<in> set xs. Channel m = c \<and> MessageType m \<noteq> MessageTypeRocketLaunched"
        using set_eq by simp
      show ?thesis
        using no_launch_run [OF assms(1) dx by_x ne] no_launch_run [OF assms(1,4) by_y False]
        by (simp add: same)
    qed
  next
    case False
    then have first: "\<forall>m \<in> set ys. MessageNumber m = 1 \<longrightarrow>
                        MessageType m = MessageTypeRocketLaunched"
      and expl: "\<forall>e \<in> set ys. \<forall>m \<in> set ys.
            MessageType e = MessageTypeRocketExploded \<and>
            {1..MessageNumber e} \<subseteq> MessageNumber ` set ys \<and>
            MessageNumber e < MessageNumber m \<longrightarrow>
            MessageType m = MessageTypeRocketLaunched"
      using assms(7) by blast+
    have fam: "family c ?G"
      by (rule family_received [OF assms(5) first expl])
    obtain K where K: "isCursor ?G K" and acc: "accOK ?G K"
      using inorder_accOK [OF assms(1,3,4) fam assms(6)] by blast
    have memy: "\<forall>m \<in> set ys. fmlookup ?G (MessageNumber m) = Some m"
      using received_lookup [OF assms(4)] by simp
    then have memx: "\<forall>m \<in> set xs. fmlookup ?G (MessageNumber m) = Some m"
      using set_eq by simp
    obtain k1 where k1: "isCursor ?G k1" and r1: "Rep r c ?G k1 (ProcessAll r xs)"
      using run_Rep [OF assms(1) fam K acc dx memx] by (auto simp: same)
    obtain k2 where k2: "isCursor ?G k2" and r2: "Rep r c ?G k2 (ProcessAll r ys)"
      using run_Rep [OF assms(1) fam K acc assms(4) memy] by auto
    have "k1 = k2"
      by (rule isCursor_unique [OF k1 k2])
    then show ?thesis
      using Rep_unique [OF r1] r2 by simp
  qed
qed

text \<open>
  Claim C5, witness: launch 1, increase 2, explosion 3 and launch 4 of one channel,
  arriving in the reverse order, end in the repository of the run in order, with the
  cursor at 4.
\<close>

theorem C5_permutation_equivalence_witness:
  "freshChannel NewRocketRepository ''R'' \<and>
   mset [launched ''R'' 4 13 ''Atlas'' ''LUNA'' 800, exploded ''R'' 3 12 ''X'',
         speedIncreased ''R'' 2 11 100, launched ''R'' 1 10 ''Falcon-9'' ''ARTEMIS'' 500] =
   mset [launched ''R'' 1 10 ''Falcon-9'' ''ARTEMIS'' 500, speedIncreased ''R'' 2 11 100,
         exploded ''R'' 3 12 ''X'', launched ''R'' 4 13 ''Atlas'' ''LUNA'' 800] \<and>
   ProcessFlags NewRocketRepository
     [launched ''R'' 1 10 ''Falcon-9'' ''ARTEMIS'' 500, speedIncreased ''R'' 2 11 100,
      exploded ''R'' 3 12 ''X'', launched ''R'' 4 13 ''Atlas'' ''LUNA'' 800] =
     [True, True, True, True] \<and>
   ProcessAll NewRocketRepository
     [launched ''R'' 4 13 ''Atlas'' ''LUNA'' 800, exploded ''R'' 3 12 ''X'',
      speedIncreased ''R'' 2 11 100, launched ''R'' 1 10 ''Falcon-9'' ''ARTEMIS'' 500] =
   ProcessAll NewRocketRepository
     [launched ''R'' 1 10 ''Falcon-9'' ''ARTEMIS'' 500, speedIncreased ''R'' 2 11 100,
      exploded ''R'' 3 12 ''X'', launched ''R'' 4 13 ''Atlas'' ''LUNA'' 800] \<and>
   map_option LastProcessedMessageNumber
     (GetRocket
        (ProcessAll NewRocketRepository
           [launched ''R'' 4 13 ''Atlas'' ''LUNA'' 800, exploded ''R'' 3 12 ''X'',
            speedIncreased ''R'' 2 11 100, launched ''R'' 1 10 ''Falcon-9'' ''ARTEMIS'' 500])
        ''R'') = Some 4"
proof -
  let ?xs = "[launched ''R'' 4 13 ''Atlas'' ''LUNA'' 800, exploded ''R'' 3 12 ''X'',
         speedIncreased ''R'' 2 11 100, launched ''R'' 1 10 ''Falcon-9'' ''ARTEMIS'' 500]"
  let ?ys = "[launched ''R'' 1 10 ''Falcon-9'' ''ARTEMIS'' 500, speedIncreased ''R'' 2 11 100,
         exploded ''R'' 3 12 ''X'', launched ''R'' 4 13 ''Atlas'' ''LUNA'' 800]"
  have fr: "freshChannel NewRocketRepository ''R''"
    by (simp add: freshChannel_def NewRocketRepository_def)
  have p: "mset ?xs = mset ?ys"
    by (simp add: add.commute add.left_commute)
  have s: "sorted (map MessageNumber ?ys)" and d: "distinct (map MessageNumber ?ys)"
    by (simp_all add: msg_defs)
  have b: "\<forall>m \<in> set ?ys. Channel m = ''R'' \<and> 0 < MessageNumber m \<and> MessageNumber m < 2 ^ 63"
    by (simp add: msg_defs)
  have f: "ProcessFlags NewRocketRepository ?ys = [True, True, True, True]"
    by (simp add: msg_defs run_defs)
  then have a: "\<forall>ok \<in> set (ProcessFlags NewRocketRepository ?ys). ok"
    by simp
  have first: "\<forall>m \<in> set ?ys. MessageNumber m = 1 \<longrightarrow> MessageType m = MessageTypeRocketLaunched"
    by (simp add: msg_defs)
  have expl: "\<forall>e \<in> set ?ys. \<forall>m \<in> set ?ys.
            MessageType e = MessageTypeRocketExploded \<and>
            {1..MessageNumber e} \<subseteq> MessageNumber ` set ?ys \<and>
            MessageNumber e < MessageNumber m \<longrightarrow>
            MessageType m = MessageTypeRocketLaunched"
    by (simp add: msg_defs)
  have h: "(\<forall>m \<in> set ?ys. MessageType m \<noteq> MessageTypeRocketLaunched) \<or>
         (\<forall>m \<in> set ?ys. MessageNumber m = 1 \<longrightarrow> MessageType m = MessageTypeRocketLaunched) \<and>
         (\<forall>e \<in> set ?ys. \<forall>m \<in> set ?ys.
            MessageType e = MessageTypeRocketExploded \<and>
            {1..MessageNumber e} \<subseteq> MessageNumber ` set ?ys \<and>
            MessageNumber e < MessageNumber m \<longrightarrow>
            MessageType m = MessageTypeRocketLaunched)"
    using first expl by blast
  have run: "map_option LastProcessedMessageNumber
               (GetRocket (ProcessAll NewRocketRepository ?ys) ''R'') = Some 4"
    by (simp add: msg_defs run_defs)
  have eq: "ProcessAll NewRocketRepository ?xs = ProcessAll NewRocketRepository ?ys"
    by (rule C5_permutation_equivalence [OF fr p s d b a h])
  show ?thesis
    using fr p f eq run by simp
qed

text \<open>
  Claim C5, counterexample. The four messages launch 1, explosion 2, launch 3, increase 4
  of one channel are all accepted in this order and end at speed 803; when the increase
  arrives second it is buffered, swept away by the explosion, and the run ends at speed
  800. And on a second channel an increase with number 1 and a launch with number 2 are
  both accepted in this order and leave the cursor at 0, while the other order of
  arrival leaves it at 2.
\<close>

theorem C5_counterexample:
  "ProcessFlags NewRocketRepository
     [launched ''R'' 1 10 ''Falcon-9'' ''ARTEMIS'' 500, exploded ''R'' 2 11 ''X'',
      launched ''R'' 3 12 ''Atlas'' ''LUNA'' 800, speedIncreased ''R'' 4 13 3]
     = [True, True, True, True] \<and>
   map_option Speed
     (GetRocket
        (ProcessAll NewRocketRepository
           [launched ''R'' 1 10 ''Falcon-9'' ''ARTEMIS'' 500, exploded ''R'' 2 11 ''X'',
            launched ''R'' 3 12 ''Atlas'' ''LUNA'' 800, speedIncreased ''R'' 4 13 3])
        ''R'') = Some 803 \<and>
   map_option Speed
     (GetRocket
        (ProcessAll NewRocketRepository
           [launched ''R'' 1 10 ''Falcon-9'' ''ARTEMIS'' 500, speedIncreased ''R'' 4 13 3,
            exploded ''R'' 2 11 ''X'', launched ''R'' 3 12 ''Atlas'' ''LUNA'' 800])
        ''R'') = Some 800 \<and>
   ProcessFlags NewRocketRepository
     [speedIncreased ''S'' 1 10 50, launched ''S'' 2 11 ''Falcon-9'' ''ARTEMIS'' 500]
     = [True, True] \<and>
   map_option LastProcessedMessageNumber
     (GetRocket
        (ProcessAll NewRocketRepository
           [speedIncreased ''S'' 1 10 50, launched ''S'' 2 11 ''Falcon-9'' ''ARTEMIS'' 500])
        ''S'') = Some 0 \<and>
   map_option LastProcessedMessageNumber
     (GetRocket
        (ProcessAll NewRocketRepository
           [launched ''S'' 2 11 ''Falcon-9'' ''ARTEMIS'' 500, speedIncreased ''S'' 1 10 50])
        ''S'') = Some 2"
  by (simp add: msg_defs run_defs)

subsection \<open>C6: the gate of an exploded rocket\<close>

text \<open>
  Claim C6. For an exploded rocket and a message that is not \<open>RocketLaunched\<close>,
  \<open>processMessageByType\<close> returns \<open>false\<close> and changes neither the rocket nor the
  repository. In every run of messages with positive numbers, if such a message carries
  the expected number of the exploded rocket of its channel, \<open>ProcessMessage\<close> returns
  \<open>false\<close> and the repository is unchanged.
\<close>

theorem C6_exploded_rocket_rejects_in_order_message:
  assumes "validNumbers msgs"
    and "GetRocket (ProcessAll NewRocketRepository msgs) (Channel msg) = Some rocket"
    and "Exploded rocket"
    and "MessageType msg \<noteq> MessageTypeRocketLaunched"
    and "MessageNumber msg = wrap64 (LastProcessedMessageNumber rocket + 1)"
  shows "processMessageByType r0 rocket msg = (False, rocket, r0) \<and>
         ProcessMessage (ProcessAll NewRocketRepository msgs) msg =
           (False, ProcessAll NewRocketRepository msgs)"
proof -
  let ?r = "ProcessAll NewRocketRepository msgs"
  have rk: "fmlookup (rockets ?r) (Channel msg) = Some rocket"
    using assms(2) by (simp add: GetRocket_def)
  have inv: "chanInv (Channel msg) rocket ?r"
    by (rule repoInv_rocket [OF run_repoInv [OF assms(1)] rk])
  have np: "\<not> isProcessed ?r (Channel msg) (MessageNumber msg)"
    using chanInv_not_processed_next [OF inv] assms(5) by simp
  have gate: "processMessageByType r rocket msg = (False, rocket, r)" for r
    by (rule exploded_gate [OF assms(3,4)])
  have "ProcessMessage ?r msg = processInSequence ?r rocket msg"
    by (rule ProcessMessage_existing [OF rk chanInv_maps [OF inv] np])
  also have "\<dots> = (False, ?r)"
    by (rule processInSequence_rejected [OF assms(5) gate rk])
  finally show ?thesis
    using gate by simp
qed

text \<open>
  Claim C6, witness: the theorem above at a concrete run, its hypotheses discharged there.
\<close>

theorem C6_exploded_rocket_rejects_in_order_message_witness:
  "validNumbers [launched ''R'' 1 10 ''Falcon-9'' ''ARTEMIS'' 500, exploded ''R'' 2 11 ''X''] \<and>
   ProcessMessage
     (ProcessAll NewRocketRepository
        [launched ''R'' 1 10 ''Falcon-9'' ''ARTEMIS'' 500, exploded ''R'' 2 11 ''X''])
     (speedIncreased ''R'' 3 12 50) =
     (False,
      ProcessAll NewRocketRepository
        [launched ''R'' 1 10 ''Falcon-9'' ''ARTEMIS'' 500, exploded ''R'' 2 11 ''X''])"
proof -
  let ?msgs = "[launched ''R'' 1 10 ''Falcon-9'' ''ARTEMIS'' 500, exploded ''R'' 2 11 ''X'']"
  let ?rocket = "\<lparr>ID = ''R'', Type = ''Falcon-9'', Speed = 500, Mission = ''ARTEMIS'',
                  Exploded = True, Reason = ''X'', CreatedAt = 10, UpdatedAt = 11,
                  LastProcessedMessageNumber = 2\<rparr>"
  have v: "validNumbers ?msgs"
    by (simp add: validNumbers_def msg_defs)
  have g: "GetRocket (ProcessAll NewRocketRepository ?msgs) (Channel (speedIncreased ''R'' 3 12 50))
             = Some ?rocket"
    by (simp add: msg_defs run_defs)
  have e: "Exploded ?rocket"
    by simp
  have t: "MessageType (speedIncreased ''R'' 3 12 50) \<noteq> MessageTypeRocketLaunched"
    by (simp add: msg_defs)
  have n: "MessageNumber (speedIncreased ''R'' 3 12 50) =
             wrap64 (LastProcessedMessageNumber ?rocket + 1)"
    by (simp add: msg_defs wrap64_def)
  show ?thesis
    using v C6_exploded_rocket_rejects_in_order_message [OF v g e t n] by simp
qed

subsection \<open>C7: the debug information of a channel\<close>

text \<open>
  Claim C7, as the code has it. A result of \<open>GetDebugInfo\<close> holds the number of
  processed messages and a list with every pending number exactly once, in the order
  in which Go ranges over the map: sorting the list gives the sorted list of the pending
  numbers, and the sorted list is one of the possible results, but the function does
  not sort. For an id the repository has no maps for, the only result is \<open>(0, [])\<close>.
\<close>

theorem C7_debug_info_lists_each_pending_number_once:
  "(GetDebugInfo_returns r rocketID (processedCount, pendingNumbers) \<longrightarrow>
      processedCount = card (fmdom' (processedFor r rocketID)) \<and>
      distinct pendingNumbers \<and>
      set pendingNumbers = fmdom' (pendingFor r rocketID) \<and>
      sort pendingNumbers = sorted_list_of_set (fmdom' (pendingFor r rocketID))) \<and>
   GetDebugInfo_returns r rocketID
     (card (fmdom' (processedFor r rocketID)),
      sorted_list_of_set (fmdom' (pendingFor r rocketID))) \<and>
   (fmlookup (processedMessages r) rocketID = None \<and>
    fmlookup (pendingMessages r) rocketID = None \<longrightarrow>
      GetDebugInfo_returns r rocketID res = (res = (0, [])))"
proof -
  have set_eq: "fset_of_list xs = fmdom p \<longleftrightarrow> set xs = fmdom' p" for xs :: "int list" and p :: "(int, RocketMessage) fmap"
    by (metis fmdom'_alt_def fset_of_list.rep_eq fset_inject)
  have a: "processedCount = card (fmdom' (processedFor r rocketID)) \<and>
      distinct pendingNumbers \<and>
      set pendingNumbers = fmdom' (pendingFor r rocketID)"
    if "GetDebugInfo_returns r rocketID (processedCount, pendingNumbers)"
    using that
    by (auto simp: GetDebugInfo_returns_def processedFor_def pendingFor_def fcard_fmdom set_eq
        split: option.splits)
  have b: "sort pendingNumbers = sorted_list_of_set (fmdom' (pendingFor r rocketID))"
    if "GetDebugInfo_returns r rocketID (processedCount, pendingNumbers)"
  proof -
    have "distinct pendingNumbers" "set pendingNumbers = fmdom' (pendingFor r rocketID)"
      using a [OF that] by simp_all
    then show ?thesis
      by (metis sorted_list_of_set_sort_remdups distinct_remdups_id)
  qed
  have c: "GetDebugInfo_returns r rocketID
     (card (fmdom' (processedFor r rocketID)),
      sorted_list_of_set (fmdom' (pendingFor r rocketID)))"
    by (auto simp: GetDebugInfo_returns_def processedFor_def pendingFor_def fcard_fmdom set_eq
        split: option.splits)
  have d: "GetDebugInfo_returns r rocketID res = (res = (0, []))"
    if "fmlookup (processedMessages r) rocketID = None"
      "fmlookup (pendingMessages r) rocketID = None"
    using that by (cases res) (auto simp: GetDebugInfo_returns_def)
  show ?thesis
  proof (intro conjI impI)
    assume "fmlookup (processedMessages r) rocketID = None \<and>
            fmlookup (pendingMessages r) rocketID = None"
    then show "GetDebugInfo_returns r rocketID res = (res = (0, []))"
      using d by simp
  qed (use a b c in simp_all)
qed

text \<open>
  Claim C7, witness: the theorem above at a concrete run, its hypotheses discharged there.
\<close>

theorem C7_debug_info_lists_each_pending_number_once_witness:
  "GetDebugInfo_returns
     (ProcessAll NewRocketRepository
        [launched ''R'' 1 10 ''Falcon-9'' ''ARTEMIS'' 500, speedIncreased ''R'' 3 11 50,
         speedIncreased ''R'' 4 12 50])
     ''R'' (1, [4, 3]) \<and>
   set [4, 3] =
     fmdom'
       (pendingFor
          (ProcessAll NewRocketRepository
             [launched ''R'' 1 10 ''Falcon-9'' ''ARTEMIS'' 500, speedIncreased ''R'' 3 11 50,
              speedIncreased ''R'' 4 12 50])
          ''R'') \<and>
   GetDebugInfo_returns
     (ProcessAll NewRocketRepository
        [launched ''R'' 1 10 ''Falcon-9'' ''ARTEMIS'' 500, speedIncreased ''R'' 3 11 50,
         speedIncreased ''R'' 4 12 50])
     ''S'' (0, [])"
proof -
  let ?r = "ProcessAll NewRocketRepository
        [launched ''R'' 1 10 ''Falcon-9'' ''ARTEMIS'' 500, speedIncreased ''R'' 3 11 50,
         speedIncreased ''R'' 4 12 50]"
  have one: "GetDebugInfo_returns ?r ''R'' (1, [4, 3])"
    by (simp add: msg_defs run_defs GetDebugInfo_returns_def fcard_finsert_if)
  have unknown: "fmlookup (processedMessages ?r) ''S'' = None \<and>
                 fmlookup (pendingMessages ?r) ''S'' = None"
    by (simp add: msg_defs run_defs)
  show ?thesis
    using one unknown
      C7_debug_info_lists_each_pending_number_once [of ?r "''R''" 1 "[4, 3]" "(0, [])"]
      C7_debug_info_lists_each_pending_number_once [of ?r "''S''" 0 "[]" "(0, [])"]
    by simp
qed

text \<open>
  Claim C7, counterexample: with 3 and 4 pending, \<open>[4, 3]\<close> is a result of
  \<open>GetDebugInfo\<close>, and it is not sorted.
\<close>

theorem C7_counterexample:
  "GetDebugInfo_returns
     (ProcessAll NewRocketRepository
        [launched ''R'' 1 10 ''Falcon-9'' ''ARTEMIS'' 500, speedIncreased ''R'' 3 11 50,
         speedIncreased ''R'' 4 12 50])
     ''R'' (1, [4, 3]) \<and>
   \<not> sorted [4, 3 :: int]"
  by (simp add: msg_defs run_defs GetDebugInfo_returns_def fcard_finsert_if)

subsection \<open>C8: the speed is never negative, as long as no addition overflows\<close>

text \<open>
  Claim C8, as the code has it. Take a run of messages with positive numbers in which
  every launch speed is at least 0, every \<open>By\<close> is a 64-bit value, and the launch speeds
  and speed increases of all messages add up to less than \<open>2 ^ 63\<close>, so that no
  \<open>Speed += By\<close> can wrap around. Then the speed of every rocket is at least 0. If
  moreover a rocket has not exploded, a \<open>RocketSpeedDecreased\<close> with \<open>By\<close> above its
  speed is accepted by \<open>processMessageByType\<close>, which sets the speed to 0, and
  \<open>ProcessMessage\<close> returns \<open>true\<close> for it when it carries the expected number.
\<close>

theorem C8_speed_stays_nonnegative_without_overflow:
  assumes "validNumbers msgs"
    and "\<forall>m \<in> set msgs. speedFieldsOK m"
    and "sum_list (map speedGain msgs) < 2 ^ 63"
    and "GetRocket (ProcessAll NewRocketRepository msgs) c = Some rocket"
  shows "0 \<le> Speed rocket \<and>
         (\<not> Exploded rocket \<and> MessageType msg = MessageTypeRocketSpeedDecreased \<and>
          Speed rocket < Message_By msg \<and> int64 (Message_By msg) \<longrightarrow>
            processMessageByType r0 rocket msg = (True, rocket\<lparr>Speed := 0\<rparr>, r0) \<and>
            (Channel msg = c \<and>
             MessageNumber msg = wrap64 (LastProcessedMessageNumber rocket + 1) \<longrightarrow>
               fst (ProcessMessage (ProcessAll NewRocketRepository msgs) msg) = True))"
proof -
  let ?r = "ProcessAll NewRocketRepository msgs"
  have rk: "fmlookup (rockets ?r) c = Some rocket"
    using assms(4) by (simp add: GetRocket_def)
  have "speedInv (0 + sum_list (map speedGain msgs)) ?r"
    using assms(2,3) by (intro ProcessAll_speed [OF speedInv_New]) simp_all
  then have "pendingOK (sum_list (map speedGain msgs)) (Speed rocket) (pendingFor ?r c)"
    using speedInv_rocket [OF _ rk] by simp
  then have s: "0 \<le> Speed rocket" and "Speed rocket + pendingGain (pendingFor ?r c) < 2 ^ 63"
    using assms(3) by (simp_all add: pendingOK_def)
  then have top: "Speed rocket < 2 ^ 63"
    using pendingGain_nonneg [of "pendingFor ?r c"] by simp
  have "processMessageByType r0 rocket msg = (True, rocket\<lparr>Speed := 0\<rparr>, r0) \<and>
        (Channel msg = c \<and>
         MessageNumber msg = wrap64 (LastProcessedMessageNumber rocket + 1) \<longrightarrow>
           fst (ProcessMessage ?r msg) = True)"
    if a: "\<not> Exploded rocket" "MessageType msg = MessageTypeRocketSpeedDecreased"
      "Speed rocket < Message_By msg" "int64 (Message_By msg)"
  proof -
    have floor: "processMessageByType r1 rocket msg = (True, rocket\<lparr>Speed := 0\<rparr>, r1)" for r1
      by (rule speedDecreased_floor [OF a(1,2) s top a(3,4)])
    have "fst (ProcessMessage ?r msg) = True"
      if b: "Channel msg = c" "MessageNumber msg = wrap64 (LastProcessedMessageNumber rocket + 1)"
    proof -
      have rk': "fmlookup (rockets ?r) (Channel msg) = Some rocket"
        using rk b(1) by simp
      have inv: "chanInv (Channel msg) rocket ?r"
        by (rule repoInv_rocket [OF run_repoInv [OF assms(1)] rk'])
      have np: "\<not> isProcessed ?r (Channel msg) (MessageNumber msg)"
        using chanInv_not_processed_next [OF inv] b(2) by simp
      have "ProcessMessage ?r msg = processInSequence ?r rocket msg"
        by (rule ProcessMessage_existing [OF rk' chanInv_maps [OF inv] np])
      then show ?thesis
        by (simp add: processInSequence_applied [OF b(2) floor])
    qed
    then show ?thesis
      using floor by simp
  qed
  then show ?thesis
    using s by blast
qed

text \<open>
  Claim C8, witness: the theorem above at a concrete run, its hypotheses discharged there.
\<close>

theorem C8_speed_stays_nonnegative_without_overflow_witness:
  "validNumbers [launched ''R'' 1 10 ''Falcon-9'' ''ARTEMIS'' 500] \<and>
   sum_list (map speedGain [launched ''R'' 1 10 ''Falcon-9'' ''ARTEMIS'' 500]) < 2 ^ 63 \<and>
   processMessageByType NewRocketRepository
     \<lparr>ID = ''R'', Type = ''Falcon-9'', Speed = 500, Mission = ''ARTEMIS'', Exploded = False,
      Reason = [], CreatedAt = 10, UpdatedAt = 10, LastProcessedMessageNumber = 1\<rparr>
     (speedDecreased ''R'' 2 11 600) =
     (True,
      \<lparr>ID = ''R'', Type = ''Falcon-9'', Speed = 0, Mission = ''ARTEMIS'', Exploded = False,
       Reason = [], CreatedAt = 10, UpdatedAt = 10, LastProcessedMessageNumber = 1\<rparr>,
      NewRocketRepository) \<and>
   fst (ProcessMessage (ProcessAll NewRocketRepository [launched ''R'' 1 10 ''Falcon-9'' ''ARTEMIS'' 500])
          (speedDecreased ''R'' 2 11 600)) = True"
proof -
  let ?msgs = "[launched ''R'' 1 10 ''Falcon-9'' ''ARTEMIS'' 500]"
  let ?rocket = "\<lparr>ID = ''R'', Type = ''Falcon-9'', Speed = 500, Mission = ''ARTEMIS'',
      Exploded = False, Reason = [], CreatedAt = 10, UpdatedAt = 10,
      LastProcessedMessageNumber = 1\<rparr>"
  have v: "validNumbers ?msgs"
    by (simp add: validNumbers_def msg_defs)
  have f: "\<forall>m \<in> set ?msgs. speedFieldsOK m"
    by (simp add: speedFieldsOK_def msg_defs int64_def)
  have b: "sum_list (map speedGain ?msgs) < 2 ^ 63"
    by (simp add: speedGain_def msg_defs)
  have g: "GetRocket (ProcessAll NewRocketRepository ?msgs) ''R'' = Some ?rocket"
    by (simp add: msg_defs run_defs)
  show ?thesis
    using v f b
      C8_speed_stays_nonnegative_without_overflow [OF v f b g,
        of "speedDecreased ''R'' 2 11 600" NewRocketRepository]
    by (simp add: msg_defs speedDecreased_def int64_def wrap64_def)
qed

text \<open>
  Claim C8, counterexample: a launch at speed \<open>2 ^ 63 - 1\<close> followed by an increase
  by 1 wraps the speed round to \<open>- 2 ^ 63\<close>; and a \<open>RocketSpeedDecreased\<close> at the
  expected number of an exploded rocket is refused.
\<close>

theorem C8_counterexample:
  "map_option Speed
     (GetRocket
        (ProcessAll NewRocketRepository
           [launched ''R'' 1 10 ''Falcon-9'' ''ARTEMIS'' 9223372036854775807,
            speedIncreased ''R'' 2 11 1])
        ''R'') = Some (- 9223372036854775808) \<and>
   fst (ProcessMessage
          (ProcessAll NewRocketRepository
             [launched ''R'' 1 10 ''Falcon-9'' ''ARTEMIS'' 500, exploded ''R'' 2 11 ''X''])
          (speedDecreased ''R'' 3 12 600)) = False"
  by (simp add: msg_defs speedDecreased_def run_defs)

subsection \<open>C9: a message of an unrecognised type\<close>

text \<open>
  Claim C9. Let the type of a message be none of the five constants. Then
  \<open>processMessageByType\<close> refuses it without changing anything, and in every run of
  messages with positive numbers \<open>ProcessMessage\<close> leaves the map of rockets and the
  processed numbers as they are and touches no pending entry but the one at the channel
  and number of the message. When the channel has no rocket, \<open>true\<close> is returned and the
  message is in the pending map under its number; when its number is ahead of the
  expected one, \<open>true\<close> is returned and the message is in the pending map under its
  number; when its number is the expected one, \<open>false\<close> is returned and the repository
  is unchanged.
\<close>

theorem C9_unrecognised_type_never_changes_a_rocket:
  assumes "validNumbers msgs"
    and "r = ProcessAll NewRocketRepository msgs"
    and "\<not> isValidMessageType (MessageType msg)"
  shows "processMessageByType r0 rocket0 msg = (False, rocket0, r0) \<and>
         rockets (snd (ProcessMessage r msg)) = rockets r \<and>
         (\<forall>c. processedFor (snd (ProcessMessage r msg)) c = processedFor r c) \<and>
         (\<forall>c n. c \<noteq> Channel msg \<or> n \<noteq> MessageNumber msg \<longrightarrow>
            fmlookup (pendingFor (snd (ProcessMessage r msg)) c) n = fmlookup (pendingFor r c) n) \<and>
         (GetRocket r (Channel msg) = None \<longrightarrow>
            ProcessMessage r msg =
              (True, setPending (initMaps r (Channel msg)) (Channel msg) (MessageNumber msg) msg) \<and>
            fmlookup (pendingFor (snd (ProcessMessage r msg)) (Channel msg)) (MessageNumber msg) =
              Some msg) \<and>
         (\<forall>rocket. GetRocket r (Channel msg) = Some rocket \<and>
            LastProcessedMessageNumber rocket + 1 < MessageNumber msg \<and>
            MessageNumber msg < 2 ^ 63 \<longrightarrow>
            ProcessMessage r msg = (True, setPending r (Channel msg) (MessageNumber msg) msg) \<and>
            fmlookup (pendingFor (snd (ProcessMessage r msg)) (Channel msg)) (MessageNumber msg) =
              Some msg) \<and>
         (\<forall>rocket. GetRocket r (Channel msg) = Some rocket \<and>
            MessageNumber msg = wrap64 (LastProcessedMessageNumber rocket + 1) \<longrightarrow>
            ProcessMessage r msg = (False, r))"
proof -
  let ?c = "Channel msg" and ?n = "MessageNumber msg"
  have inv: "repoInv r"
    using run_repoInv [OF assms(1)] assms(2) by simp
  have nl: "MessageType msg \<noteq> MessageTypeRocketLaunched"
    using assms(3) by (auto simp: isValidMessageType_def)
  have rej: "processMessageByType r1 rocket1 msg = (False, rocket1, r1)" for r1 rocket1
    by (rule unknown_type_rejected [OF assms(3)])
  have a: "rockets (snd (ProcessMessage r msg)) = rockets r"
    by (rule ProcessMessage_rejecting_keeps_rockets [OF rej nl])
  have f1: "\<forall>c. processedFor (snd (ProcessMessage r msg)) c = processedFor r c"
    using ProcessMessage_rejecting_frame(1) [OF rej nl] by blast
  have f2: "\<forall>c n. c \<noteq> ?c \<or> n \<noteq> ?n \<longrightarrow>
              fmlookup (pendingFor (snd (ProcessMessage r msg)) c) n = fmlookup (pendingFor r c) n"
    using ProcessMessage_rejecting_frame(2) [OF rej nl] by blast
  have b: "ProcessMessage r msg = (True, setPending (initMaps r ?c) ?c ?n msg)"
    if "GetRocket r ?c = None"
  proof -
    have none: "fmlookup (rockets r) ?c = None"
      using that by (simp add: GetRocket_def)
    have "processedFor r ?c = fmempty"
      using repoInv_no_rocket [OF inv none] by (simp add: noRocketInv_def)
    then have "\<not> isProcessed (initMaps r ?c) ?c ?n"
      by (simp add: isProcessed_def)
    then show ?thesis
      using none nl by (simp add: ProcessMessage_def Let_def)
  qed
  have b': "fmlookup (pendingFor (snd (ProcessMessage r msg)) ?c) ?n = Some msg"
    if "GetRocket r ?c = None"
    using b [OF that] by simp
  have c: "ProcessMessage r msg = (True, setPending r ?c ?n msg)"
    if "GetRocket r ?c = Some rocket" "LastProcessedMessageNumber rocket + 1 < ?n" "?n < 2 ^ 63"
    for rocket
  proof -
    have rk: "fmlookup (rockets r) ?c = Some rocket"
      using that(1) by (simp add: GetRocket_def)
    have ci: "chanInv ?c rocket r"
      by (rule repoInv_rocket [OF inv rk])
    have "0 \<le> LastProcessedMessageNumber rocket"
      using ci by (simp add: chanInv_def)
    then have e: "wrap64 (LastProcessedMessageNumber rocket + 1) = LastProcessedMessageNumber rocket + 1"
      using that(2,3) by (intro wrap64_succ) simp_all
    have np: "\<not> isProcessed r ?c ?n"
      using that(2) by (intro chanInv_not_processed_ahead [OF ci]) simp
    have "ProcessMessage r msg = processInSequence r rocket msg"
      by (rule ProcessMessage_existing [OF rk chanInv_maps [OF ci] np])
    also have "\<dots> = (True, setPending r ?c ?n msg)"
      using that(2) by (intro processInSequence_later) (simp add: e)
    finally show ?thesis .
  qed
  have c': "fmlookup (pendingFor (snd (ProcessMessage r msg)) ?c) ?n = Some msg"
    if "GetRocket r ?c = Some rocket" "LastProcessedMessageNumber rocket + 1 < ?n" "?n < 2 ^ 63"
    for rocket
    using c [OF that] by simp
  have d: "ProcessMessage r msg = (False, r)"
    if "GetRocket r ?c = Some rocket" "?n = wrap64 (LastProcessedMessageNumber rocket + 1)"
    for rocket
  proof -
    have rk: "fmlookup (rockets r) ?c = Some rocket"
      using that(1) by (simp add: GetRocket_def)
    have ci: "chanInv ?c rocket r"
      by (rule repoInv_rocket [OF inv rk])
    have np: "\<not> isProcessed r ?c ?n"
      using chanInv_not_processed_next [OF ci] that(2) by simp
    have "ProcessMessage r msg = processInSequence r rocket msg"
      by (rule ProcessMessage_existing [OF rk chanInv_maps [OF ci] np])
    also have "\<dots> = (False, r)"
      by (rule processInSequence_rejected [OF that(2) rej rk])
    finally show ?thesis .
  qed
  show ?thesis
  proof (intro conjI allI impI)
    show "processMessageByType r0 rocket0 msg = (False, rocket0, r0)"
      by (rule rej)
    show "rockets (snd (ProcessMessage r msg)) = rockets r"
      by (rule a)
    show "processedFor (snd (ProcessMessage r msg)) c = processedFor r c" for c
      using f1 by simp
    show "fmlookup (pendingFor (snd (ProcessMessage r msg)) c) n = fmlookup (pendingFor r c) n"
      if "c \<noteq> ?c \<or> n \<noteq> ?n" for c n
      using f2 that by blast
    show "ProcessMessage r msg = (True, setPending (initMaps r ?c) ?c ?n msg)"
      if "GetRocket r ?c = None"
      by (rule b [OF that])
    show "fmlookup (pendingFor (snd (ProcessMessage r msg)) ?c) ?n = Some msg"
      if "GetRocket r ?c = None"
      by (rule b' [OF that])
    show "ProcessMessage r msg = (True, setPending r ?c ?n msg)"
      if "GetRocket r ?c = Some rocket \<and> LastProcessedMessageNumber rocket + 1 < ?n \<and> ?n < 2 ^ 63"
      for rocket
      using c that by blast
    show "fmlookup (pendingFor (snd (ProcessMessage r msg)) ?c) ?n = Some msg"
      if "GetRocket r ?c = Some rocket \<and> LastProcessedMessageNumber rocket + 1 < ?n \<and> ?n < 2 ^ 63"
      for rocket
      using c' that by blast
    show "ProcessMessage r msg = (False, r)"
      if "GetRocket r ?c = Some rocket \<and> ?n = wrap64 (LastProcessedMessageNumber rocket + 1)"
      for rocket
      using d that by blast
  qed
qed

text \<open>
  Claim C9, witness: after a launch with number 1 a message of type \<open>RocketPainted\<close> is
  refused at number 2, buffered at number 5, and buffered on a channel without a rocket.
\<close>

theorem C9_unrecognised_type_never_changes_a_rocket_witness:
  "validNumbers [launched ''R'' 1 10 ''Falcon-9'' ''ARTEMIS'' 500] \<and>
   \<not> isValidMessageType ''RocketPainted'' \<and>
   ProcessMessage (ProcessAll NewRocketRepository [launched ''R'' 1 10 ''Falcon-9'' ''ARTEMIS'' 500])
     (emptyMessage\<lparr>Channel := ''R'', MessageNumber := 2, MessageTime := 11,
        MessageType := ''RocketPainted''\<rparr>) =
     (False, ProcessAll NewRocketRepository [launched ''R'' 1 10 ''Falcon-9'' ''ARTEMIS'' 500]) \<and>
   fst (ProcessMessage
          (ProcessAll NewRocketRepository [launched ''R'' 1 10 ''Falcon-9'' ''ARTEMIS'' 500])
          (emptyMessage\<lparr>Channel := ''R'', MessageNumber := 5, MessageTime := 11,
             MessageType := ''RocketPainted''\<rparr>)) = True \<and>
   fmlookup
     (pendingFor
        (snd (ProcessMessage
                (ProcessAll NewRocketRepository [launched ''R'' 1 10 ''Falcon-9'' ''ARTEMIS'' 500])
                (emptyMessage\<lparr>Channel := ''R'', MessageNumber := 5, MessageTime := 11,
                   MessageType := ''RocketPainted''\<rparr>)))
        ''R'') 5 =
     Some (emptyMessage\<lparr>Channel := ''R'', MessageNumber := 5, MessageTime := 11,
             MessageType := ''RocketPainted''\<rparr>) \<and>
   fst (ProcessMessage
          (ProcessAll NewRocketRepository [launched ''R'' 1 10 ''Falcon-9'' ''ARTEMIS'' 500])
          (emptyMessage\<lparr>Channel := ''S'', MessageNumber := 1, MessageTime := 11,
             MessageType := ''RocketPainted''\<rparr>)) = True \<and>
   fmlookup
     (pendingFor
        (snd (ProcessMessage
                (ProcessAll NewRocketRepository [launched ''R'' 1 10 ''Falcon-9'' ''ARTEMIS'' 500])
                (emptyMessage\<lparr>Channel := ''S'', MessageNumber := 1, MessageTime := 11,
                   MessageType := ''RocketPainted''\<rparr>)))
        ''S'') 1 =
     Some (emptyMessage\<lparr>Channel := ''S'', MessageNumber := 1, MessageTime := 11,
             MessageType := ''RocketPainted''\<rparr>)"
proof -
  let ?msgs = "[launched ''R'' 1 10 ''Falcon-9'' ''ARTEMIS'' 500]"
  let ?r = "ProcessAll NewRocketRepository ?msgs"
  let ?rocket = "\<lparr>ID = ''R'', Type = ''Falcon-9'', Speed = 500, Mission = ''ARTEMIS'',
                  Exploded = False, Reason = [], CreatedAt = 10, UpdatedAt = 10,
                  LastProcessedMessageNumber = 1\<rparr>"
  let ?m = "\<lambda>c n. emptyMessage\<lparr>Channel := c, MessageNumber := n, MessageTime := 11,
                      MessageType := ''RocketPainted''\<rparr>"
  have v: "validNumbers ?msgs"
    by (simp add: validNumbers_def msg_defs)
  have u: "\<not> isValidMessageType (MessageType (?m c n))" for c :: string and n :: int
    by (simp add: isValidMessageType_def msg_defs)
  have here: "GetRocket ?r ''R'' = Some ?rocket"
    by (simp add: msg_defs run_defs)
  have there: "GetRocket ?r ''S'' = None"
    by (simp add: msg_defs run_defs)
  have i1: "ProcessMessage ?r (?m ''R'' 2) = (False, ?r)"
    using C9_unrecognised_type_never_changes_a_rocket [OF v refl u [where c = "''R''" and n = 2]]
      here
    by (simp add: emptyMessage_def wrap64_def)
  have i2: "fst (ProcessMessage ?r (?m ''R'' 5)) = True \<and>
            fmlookup (pendingFor (snd (ProcessMessage ?r (?m ''R'' 5))) ''R'') 5 = Some (?m ''R'' 5)"
    using C9_unrecognised_type_never_changes_a_rocket [OF v refl u [where c = "''R''" and n = 5]]
      here
    by (simp add: emptyMessage_def)
  have i3: "fst (ProcessMessage ?r (?m ''S'' 1)) = True \<and>
            fmlookup (pendingFor (snd (ProcessMessage ?r (?m ''S'' 1))) ''S'') 1 = Some (?m ''S'' 1)"
    using C9_unrecognised_type_never_changes_a_rocket [OF v refl u [where c = "''S''" and n = 1]]
      there
    by (simp add: emptyMessage_def)
  show ?thesis
    using v u [where c = "''R''" and n = 2] i1 i2 i3 by (simp add: emptyMessage_def)
qed

subsection \<open>C10: a rejected first launch leaves an empty rocket behind\<close>

text \<open>
  Claim C10. On a channel the repository holds nothing for, a \<open>RocketLaunched\<close> message
  with number 1 and an empty type or an empty mission is refused (\<open>ProcessMessage\<close>
  returns \<open>false\<close>), yet the rocket record made for it stays in the map: \<open>GetRocket\<close>
  finds a rocket with zero speed, empty type and mission, not exploded and with
  \<open>LastProcessedMessageNumber = 0\<close>, and \<open>GetAllRockets\<close> lists its summary.
\<close>

theorem C10_rejected_launch_leaves_empty_rocket:
  assumes "freshChannel r (Channel msg)"
    and "MessageNumber msg = 1"
    and "MessageType msg = MessageTypeRocketLaunched"
    and "Message_Type msg = [] \<or> Message_Mission msg = []"
  shows "fst (ProcessMessage r msg) = False \<and>
         GetRocket (snd (ProcessMessage r msg)) (Channel msg) =
           Some \<lparr>ID = Channel msg, Type = [], Speed = 0, Mission = [], Exploded = False,
                 Reason = [], CreatedAt = 0, UpdatedAt = 0, LastProcessedMessageNumber = 0\<rparr> \<and>
         \<lparr>Summary_ID = Channel msg, Summary_Type = [], Summary_Speed = 0, Summary_Mission = [],
          Summary_Exploded = False, Summary_UpdatedAt = 0\<rparr>
           |\<in>| GetAllRockets (snd (ProcessMessage r msg))"
proof -
  let ?c = "Channel msg"
  let ?r2 = "storeRocket (initMaps r ?c) ?c (newRocketState ?c)"
  note fr = fresh_maps [OF assms(1)]
  have np: "\<not> isProcessed (initMaps r ?c) ?c 1"
    by (simp add: isProcessed_def fr)
  have rej: "processMessageByType ?r2 (newRocketState ?c) msg = (False, newRocketState ?c, ?r2)"
    using assms(3,4) by (auto simp: processMessageByType_def newRocketState_def)
  have seq: "processInSequence ?r2 (newRocketState ?c) msg = (False, storeRocket ?r2 ?c (newRocketState ?c))"
    using assms(2) rej
    by (simp add: processInSequence_def Let_def) (simp add: newRocketState_def wrap64_def)
  have pm: "ProcessMessage r msg = (False, storeRocket ?r2 ?c (newRocketState ?c))"
    using np fr(3) assms(2,3) seq by (simp add: ProcessMessage_def Let_def)
  have get: "GetRocket (storeRocket ?r2 ?c (newRocketState ?c)) ?c = Some (newRocketState ?c)"
    by (simp add: GetRocket_def)
  then have "newRocketState ?c |\<in>| fmran (rockets (storeRocket ?r2 ?c (newRocketState ?c)))"
    unfolding GetRocket_def by (rule fmranI)
  then have "summaryOf (newRocketState ?c) |\<in>| GetAllRockets (storeRocket ?r2 ?c (newRocketState ?c))"
    unfolding GetAllRockets_def by (rule fimageI)
  then show ?thesis
    using get by (simp add: pm newRocketState_def summaryOf_def)
qed

text \<open>
  Claim C10, witness: the theorem above at a concrete run, its hypotheses discharged there.
\<close>

theorem C10_rejected_launch_leaves_empty_rocket_witness:
  "freshChannel NewRocketRepository ''R'' \<and>
   fst (ProcessMessage NewRocketRepository (launched ''R'' 1 10 [] ''ARTEMIS'' 500)) = False \<and>
   GetRocket (snd (ProcessMessage NewRocketRepository (launched ''R'' 1 10 [] ''ARTEMIS'' 500)))
     ''R'' =
     Some \<lparr>ID = ''R'', Type = [], Speed = 0, Mission = [], Exploded = False,
           Reason = [], CreatedAt = 0, UpdatedAt = 0, LastProcessedMessageNumber = 0\<rparr>"
proof -
  have f: "freshChannel NewRocketRepository (Channel (launched ''R'' 1 10 [] ''ARTEMIS'' 500))"
    by (simp add: freshChannel_def NewRocketRepository_def launched_def emptyMessage_def)
  show ?thesis
    using f C10_rejected_launch_leaves_empty_rocket [OF f]
    by (simp add: launched_def emptyMessage_def)
qed

end
